theory Spec2Isabelle
  imports Main "HOL-Library.Word"
begin

unbundle bit_operations_syntax

section \<open>The allocator of malloc.c, embedded\<close>

text \<open>
  The program is one C file, \<^verbatim>\<open>malloc.c\<close>: a first-fit free-list allocator over the
  static array \<^verbatim>\<open>_heapData[HEAP_SIZE]\<close>, with the operations \<^verbatim>\<open>initAllocator\<close>,
  \<^verbatim>\<open>my_malloc\<close>, \<^verbatim>\<open>my_free\<close>, \<^verbatim>\<open>dumpAllocator\<close> and the helpers \<^verbatim>\<open>roundUp\<close>,
  \<^verbatim>\<open>_getNextBlockBySize\<close>, \<^verbatim>\<open>allocate_block\<close> and \<^verbatim>\<open>merge_blocks\<close>.

  Pointers and \<^verbatim>\<open>uint64_t\<close> values are 64-bit words; \<^verbatim>\<open>NULL\<close> is the word 0; pointer
  comparison is the unsigned comparison of the addresses.
\<close>

type_synonym addr = "64 word"

subsection \<open>What malloc.h declares\<close>

text \<open>
  The header \<^verbatim>\<open>malloc.h\<close> is not among the sources. The C file fixes what it needs from
  it: the header size is 16 bytes (the comment of \<^verbatim>\<open>roundUp\<close>), a block header holds the
  fields \<^verbatim>\<open>size\<close>, \<^verbatim>\<open>next\<close> and \<^verbatim>\<open>magic\<close> followed by \<^verbatim>\<open>data\<close>, and \<^verbatim>\<open>next\<close> and
  \<^verbatim>\<open>magic\<close> share their storage (\<^verbatim>\<open>allocate_block\<close> delays writing \<^verbatim>\<open>magic\<close> because it
  still needs \<^verbatim>\<open>next\<close>). The constants whose values the C file does not fix are
  parameters: the arena size, the address the linker gives the arena, and the magic
  value.

  The last parameter is what \<^verbatim>\<open>pthread_mutex_lock\<close> does when the calling thread already
  holds the mutex. The mutex is initialised with default attributes, for which POSIX leaves
  this undefined: some C libraries block the caller forever, others return an error code
  (which the C file never looks at) and carry on.
\<close>

record config =
  HEAP_SIZE :: "64 word"
  heapData :: addr
  ALLOCATED_BLOCK_MAGIC :: "64 word"
  relock_blocks :: bool

definition HEADER_SIZE :: "64 word" where
  "HEADER_SIZE = 16"

definition heap_end :: "config \<Rightarrow> addr" where
  "heap_end cfg = heapData cfg + HEAP_SIZE cfg"

subsection \<open>The state\<close>

text \<open>
  The arena is read and written only through block headers, so it is modelled as the two
  header fields at each address: \<open>blk_size s p\<close> is \<^verbatim>\<open>p->size\<close> and \<open>blk_next s p\<close> is the
  word shared by \<^verbatim>\<open>p->next\<close> and \<^verbatim>\<open>p->magic\<close>. \<open>lock\<close> says whether the mutex is held.
\<close>

record state =
  blk_size :: "addr \<Rightarrow> 64 word"
  blk_next :: "addr \<Rightarrow> 64 word"
  firstFreeBlock :: addr
  lock :: bool

text \<open>
  A header access is defined at a 16-byte boundary whose 16 bytes lie inside the arena.
  Every other access (through \<^verbatim>\<open>NULL\<close>, through the magic value taken for a pointer,
  outside the arena) is undefined in C; the model stops there with \<open>Fault\<close>.
\<close>

definition is_header :: "config \<Rightarrow> addr \<Rightarrow> bool" where
  "is_header cfg p \<longleftrightarrow>
     unat (heapData cfg) \<le> unat p \<and>
     unat p + 16 \<le> unat (heapData cfg) + unat (HEAP_SIZE cfg) \<and>
     unat p mod 16 = 0"

text \<open>
  How a call ends: it returns a value and the new state, it dereferences a pointer that is
  no header (\<open>Fault\<close>), an \<^verbatim>\<open>assert\<close> fails (\<open>AssertFail\<close>), or the caller waits for ever for
  the mutex it holds itself (\<open>Deadlock\<close>).
\<close>

datatype 'a outcome = Returns 'a state | Fault | AssertFail | Deadlock

fun bind :: "'a outcome \<Rightarrow> ('a \<Rightarrow> state \<Rightarrow> 'b outcome) \<Rightarrow> 'b outcome" where
  "bind (Returns v s) f = f v s"
| "bind Fault f = Fault"
| "bind AssertFail f = AssertFail"
| "bind Deadlock f = Deadlock"

definition pthread_mutex_lock :: "config \<Rightarrow> state \<Rightarrow> unit outcome" where
  "pthread_mutex_lock cfg s =
     (if lock s \<and> relock_blocks cfg then Deadlock else Returns () (s\<lparr>lock := True\<rparr>))"

definition pthread_mutex_unlock :: "state \<Rightarrow> state" where
  "pthread_mutex_unlock s = s\<lparr>lock := False\<rparr>"

subsection \<open>initAllocator\<close>

definition initAllocator :: "config \<Rightarrow> state \<Rightarrow> state" where
  "initAllocator cfg s =
     s\<lparr>firstFreeBlock := heapData cfg,
       blk_next := (blk_next s)(heapData cfg := 0),
       blk_size := (blk_size s)(heapData cfg := HEAP_SIZE cfg),
       lock := False\<rparr>"

subsection \<open>_getNextBlockBySize\<close>

text \<open>\<^verbatim>\<open>&current->data[current->size - HEADER_SIZE]\<close>, with the index computed in 64 bits.\<close>

definition getNextBlockBySize :: "config \<Rightarrow> state \<Rightarrow> addr \<Rightarrow> addr outcome" where
  "getNextBlockBySize cfg s current =
     (if \<not> is_header cfg current then Fault
      else
        let nxt = current + HEADER_SIZE + (blk_size s current - HEADER_SIZE) in
        if \<not> nxt \<le> heap_end cfg then AssertFail
        else Returns (if nxt = heap_end cfg then 0 else nxt) s)"

subsection \<open>roundUp\<close>

definition roundUp :: "64 word \<Rightarrow> 64 word" where
  "roundUp n = (n + 0xF) AND NOT 0xF"

subsection \<open>allocate_block\<close>

text \<open>
  The first argument of \<^verbatim>\<open>allocate_block\<close> is the address of the pointer to update:
  \<^verbatim>\<open>&_firstFreeBlock\<close> or \<^verbatim>\<open>&(block->next)\<close> of some block.
\<close>

datatype slot = Head | NextOf addr

fun slot_ok :: "config \<Rightarrow> slot \<Rightarrow> bool" where
  "slot_ok cfg Head = True"
| "slot_ok cfg (NextOf p) = is_header cfg p"

fun store_slot :: "slot \<Rightarrow> addr \<Rightarrow> state \<Rightarrow> state" where
  "store_slot Head v s = s\<lparr>firstFreeBlock := v\<rparr>"
| "store_slot (NextOf p) v s = s\<lparr>blk_next := (blk_next s)(p := v)\<rparr>"

definition allocate_block :: "config \<Rightarrow> slot \<Rightarrow> addr \<Rightarrow> 64 word \<Rightarrow> state \<Rightarrow> addr outcome" where
  "allocate_block cfg update_next block new_size s =
     bind (pthread_mutex_lock cfg s) (\<lambda>_ s1.
       if \<not> is_header cfg block then Fault
       else if \<not> new_size \<le> blk_size s1 block then AssertFail
       else if blk_size s1 block = new_size then
         (if \<not> slot_ok cfg update_next then Fault
          else
            let s2 = store_slot update_next (blk_next s1 block) s1;
                s3 = s2\<lparr>blk_next := (blk_next s2)(block := ALLOCATED_BLOCK_MAGIC cfg)\<rparr>
            in Returns (block + HEADER_SIZE) s3)
       else
         let new_free_size = blk_size s1 block - new_size;
             s2 = s1\<lparr>blk_size := (blk_size s1)(block := new_size)\<rparr>
         in bind (getNextBlockBySize cfg s2 block) (\<lambda>newfree _.
              if \<not> is_header cfg newfree then Fault
              else
                let s3 = s2\<lparr>blk_size := (blk_size s2)(newfree := new_free_size)\<rparr>;
                    s4 = s3\<lparr>blk_next := (blk_next s3)(newfree := blk_next s3 block)\<rparr>;
                    s5 = s4\<lparr>blk_next := (blk_next s4)(block := ALLOCATED_BLOCK_MAGIC cfg)\<rparr>
                in if \<not> slot_ok cfg update_next then Fault
                   else Returns (block + HEADER_SIZE)
                          (pthread_mutex_unlock (store_slot update_next newfree s5))))"

subsection \<open>my_malloc\<close>

text \<open>
  The search loop of \<^verbatim>\<open>my_malloc\<close>. It follows \<^verbatim>\<open>next\<close> pointers and need not end on a
  cyclic list: \<open>None\<close> is the loop that runs for ever.
\<close>

partial_function (option) my_malloc_loop ::
  "config \<Rightarrow> state \<Rightarrow> 64 word \<Rightarrow> slot \<Rightarrow> addr \<Rightarrow> (slot \<times> addr) outcome option" where
  "my_malloc_loop cfg s sz prevptr block =
     (if block = 0 then Some (Returns (prevptr, block) s)
      else if \<not> is_header cfg block then Some Fault
      else if sz \<le> blk_size s block then Some (Returns (prevptr, block) s)
      else my_malloc_loop cfg s sz (NextOf block) (blk_next s block))"

definition my_malloc :: "config \<Rightarrow> 64 word \<Rightarrow> state \<Rightarrow> addr outcome option" where
  "my_malloc cfg n s =
     (case pthread_mutex_lock cfg s of
        Returns _ s1 \<Rightarrow>
          let sz = roundUp n + HEADER_SIZE in
          (case my_malloc_loop cfg s1 sz Head (firstFreeBlock s1) of
             None \<Rightarrow> None
           | Some (Returns (prevptr, block) _) \<Rightarrow>
               if block = 0 then Some (Returns 0 s1)
               else Some (allocate_block cfg prevptr block sz (pthread_mutex_unlock s1))
           | Some Fault \<Rightarrow> Some Fault
           | Some AssertFail \<Rightarrow> Some AssertFail
           | Some Deadlock \<Rightarrow> Some Deadlock)
      | Fault \<Rightarrow> Some Fault
      | AssertFail \<Rightarrow> Some AssertFail
      | Deadlock \<Rightarrow> Some Deadlock)"

subsection \<open>merge_blocks\<close>

definition merge_blocks :: "config \<Rightarrow> addr \<Rightarrow> addr \<Rightarrow> state \<Rightarrow> unit outcome" where
  "merge_blocks cfg block1 block2 s =
     bind (pthread_mutex_lock cfg s) (\<lambda>_ s1.
       if \<not> is_header cfg block1 then Fault
       else if block1 + blk_size s1 block1 \<noteq> block2 then Returns () s1
       else if blk_next s1 block1 \<noteq> block2 then AssertFail
       else if \<not> is_header cfg block2 then Fault
       else
         let s2 = s1\<lparr>blk_size := (blk_size s1)(block1 := blk_size s1 block1 + blk_size s1 block2)\<rparr>;
             s3 = s2\<lparr>blk_next := (blk_next s2)(block1 := blk_next s2 block2)\<rparr>
         in Returns () (pthread_mutex_unlock s3))"

subsection \<open>my_free\<close>

text \<open>The scan loop of \<^verbatim>\<open>my_free\<close>; it returns the last \<^verbatim>\<open>freeblock\<close>.\<close>

partial_function (option) my_free_loop ::
  "config \<Rightarrow> state \<Rightarrow> addr \<Rightarrow> addr \<Rightarrow> addr outcome option" where
  "my_free_loop cfg s block freeblock =
     (if \<not> is_header cfg freeblock then Some Fault
      else if blk_next s freeblock < block \<and> blk_next s freeblock \<noteq> 0
      then my_free_loop cfg s block (blk_next s freeblock)
      else Some (Returns freeblock s))"

definition my_free :: "config \<Rightarrow> addr \<Rightarrow> state \<Rightarrow> unit outcome option" where
  "my_free cfg address s =
     (case pthread_mutex_lock cfg s of
        Returns _ s1 \<Rightarrow>
          if address = 0 then Some (Returns () s1)
          else
            let block = address - HEADER_SIZE in
            if block < firstFreeBlock s1 then
              (if \<not> is_header cfg block then Some Fault
               else
                 let s2 = s1\<lparr>blk_next := (blk_next s1)(block := firstFreeBlock s1)\<rparr>;
                     s3 = s2\<lparr>firstFreeBlock := block\<rparr>
                 in Some (bind (merge_blocks cfg block (blk_next s3 block) s3) (\<lambda>_ s4.
                      Returns () (pthread_mutex_unlock s4))))
            else
              (case my_free_loop cfg s1 block (firstFreeBlock s1) of
                 None \<Rightarrow> None
               | Some (Returns freeblock _) \<Rightarrow>
                   if \<not> is_header cfg block then Some Fault
                   else
                     let s2 = s1\<lparr>blk_next := (blk_next s1)
                                   (block := if blk_next s1 freeblock = 0 then 0
                                             else blk_next s1 freeblock)\<rparr>;
                         s3 = s2\<lparr>blk_next := (blk_next s2)(freeblock := block)\<rparr>
                     in Some (bind (merge_blocks cfg block (blk_next s3 block) s3) (\<lambda>_ s4.
                          bind (merge_blocks cfg freeblock block s4) (\<lambda>_ s5.
                            Returns () (pthread_mutex_unlock s5))))
               | Some Fault \<Rightarrow> Some Fault
               | Some AssertFail \<Rightarrow> Some AssertFail
               | Some Deadlock \<Rightarrow> Some Deadlock)
      | Fault \<Rightarrow> Some Fault
      | AssertFail \<Rightarrow> Some AssertFail
      | Deadlock \<Rightarrow> Some Deadlock)"

subsection \<open>dumpAllocator\<close>

text \<open>
  \<^verbatim>\<open>dumpAllocator\<close> prints one line for each block it visits. The model returns the
  lines: for part (a) the offset of the block from the start of the arena, its size and
  whether it is in use; for part (b) the offset and the size.
\<close>

type_synonym block_line = "64 word \<times> 64 word \<times> bool"
type_synonym free_line = "64 word \<times> 64 word"

partial_function (option) dump_all_loop ::
  "config \<Rightarrow> state \<Rightarrow> addr \<Rightarrow> block_line list \<Rightarrow> block_line list outcome option" where
  "dump_all_loop cfg s current out =
     (if current = 0 then Some (Returns out s)
      else
        (case getNextBlockBySize cfg s current of
           Returns nxt _ \<Rightarrow>
             dump_all_loop cfg s nxt
               (out @ [(current - heapData cfg, blk_size s current,
                        blk_next s current = ALLOCATED_BLOCK_MAGIC cfg)])
         | Fault \<Rightarrow> Some Fault
         | AssertFail \<Rightarrow> Some AssertFail
         | Deadlock \<Rightarrow> Some Deadlock))"

partial_function (option) dump_free_loop ::
  "config \<Rightarrow> state \<Rightarrow> addr \<Rightarrow> free_line list \<Rightarrow> free_line list outcome option" where
  "dump_free_loop cfg s current out =
     (if current = 0 then Some (Returns out s)
      else if \<not> is_header cfg current then Some Fault
      else dump_free_loop cfg s (blk_next s current)
             (out @ [(current - heapData cfg, blk_size s current)]))"

definition dumpAllocator ::
  "config \<Rightarrow> state \<Rightarrow> (block_line list \<times> free_line list) outcome option" where
  "dumpAllocator cfg s =
     (case pthread_mutex_lock cfg s of
        Returns _ s1 \<Rightarrow>
          (case dump_all_loop cfg s1 (heapData cfg) [] of
             None \<Rightarrow> None
           | Some (Returns all_lines _) \<Rightarrow>
               (case dump_free_loop cfg s1 (firstFreeBlock s1) [] of
                  None \<Rightarrow> None
                | Some (Returns free_lines _) \<Rightarrow>
                    Some (Returns (all_lines, free_lines) (pthread_mutex_unlock s1))
                | Some Fault \<Rightarrow> Some Fault
                | Some AssertFail \<Rightarrow> Some AssertFail
                | Some Deadlock \<Rightarrow> Some Deadlock)
           | Some Fault \<Rightarrow> Some Fault
           | Some AssertFail \<Rightarrow> Some AssertFail
           | Some Deadlock \<Rightarrow> Some Deadlock)
      | Fault \<Rightarrow> Some Fault
      | AssertFail \<Rightarrow> Some AssertFail
      | Deadlock \<Rightarrow> Some Deadlock)"

section \<open>Arenas, partitions and free lists\<close>

text \<open>
  What the C file takes for granted about the constants: the arena does not start at
  \<^verbatim>\<open>NULL\<close>, it is aligned to the header size (the \<^verbatim>\<open>aligned\<close> attribute), its size is a
  positive multiple of the header size, it ends below \<open>2 ^ 64\<close>, and the magic value is
  neither \<^verbatim>\<open>NULL\<close> nor the address of a header.
\<close>

definition wf_config :: "config \<Rightarrow> bool" where
  "wf_config cfg \<longleftrightarrow>
     heapData cfg \<noteq> 0 \<and>
     unat (heapData cfg) mod 16 = 0 \<and>
     16 \<le> unat (HEAP_SIZE cfg) \<and>
     unat (HEAP_SIZE cfg) mod 16 = 0 \<and>
     unat (heapData cfg) + unat (HEAP_SIZE cfg) < 2 ^ 64 \<and>
     ALLOCATED_BLOCK_MAGIC cfg \<noteq> 0 \<and>
     \<not> is_header cfg (ALLOCATED_BLOCK_MAGIC cfg)"

text \<open>
  \<open>blocks_between sz a bs e\<close>: the blocks \<open>bs\<close>, each as long as its size field says, lie
  one after the other from address \<open>a\<close> to address \<open>e\<close>.
\<close>

fun blocks_between :: "(addr \<Rightarrow> 64 word) \<Rightarrow> nat \<Rightarrow> addr list \<Rightarrow> nat \<Rightarrow> bool" where
  "blocks_between sz a [] e \<longleftrightarrow> a = e"
| "blocks_between sz a (b # bs) e \<longleftrightarrow>
     unat b = a \<and> 16 \<le> unat (sz b) \<and> unat (sz b) mod 16 = 0 \<and>
     blocks_between sz (a + unat (sz b)) bs e"

text \<open>\<open>next_path nx p fs q\<close>: following \<^verbatim>\<open>next\<close> from \<open>p\<close> visits the blocks \<open>fs\<close> and arrives at \<open>q\<close>.\<close>

fun next_path :: "(addr \<Rightarrow> addr) \<Rightarrow> addr \<Rightarrow> addr list \<Rightarrow> addr \<Rightarrow> bool" where
  "next_path nx p [] q \<longleftrightarrow> p = q"
| "next_path nx p (a # as) q \<longleftrightarrow> p = a \<and> a \<noteq> 0 \<and> next_path nx (nx a) as q"

text \<open>A block is in use when its \<^verbatim>\<open>magic\<close> is the magic value (as \<^verbatim>\<open>dumpAllocator\<close> tests).\<close>

definition is_free :: "config \<Rightarrow> state \<Rightarrow> addr \<Rightarrow> bool" where
  "is_free cfg s b \<longleftrightarrow> blk_next s b \<noteq> ALLOCATED_BLOCK_MAGIC cfg"

text \<open>Consecutive nodes of a list never touch: the end of one is not the start of the next.\<close>

fun no_touching :: "(addr \<Rightarrow> 64 word) \<Rightarrow> addr list \<Rightarrow> bool" where
  "no_touching sz (a # b # bs) \<longleftrightarrow> a + sz a \<noteq> b \<and> no_touching sz (b # bs)"
| "no_touching sz bs \<longleftrightarrow> True"

text \<open>
  The arena is partitioned into the blocks \<open>bs\<close> (in address order), and the free list is
  exactly the free blocks among them, in address order.
\<close>

definition heap_ok :: "config \<Rightarrow> state \<Rightarrow> addr list \<Rightarrow> bool" where
  "heap_ok cfg s bs \<longleftrightarrow>
     blocks_between (blk_size s) (unat (heapData cfg)) bs
       (unat (heapData cfg) + unat (HEAP_SIZE cfg)) \<and>
     next_path (blk_next s) (firstFreeBlock s) (filter (is_free cfg s) bs) 0"

text \<open>The invariants of the allocator: \<open>heap_ok\<close>, and no two free blocks touch.\<close>

definition heap_inv :: "config \<Rightarrow> state \<Rightarrow> addr list \<Rightarrow> bool" where
  "heap_inv cfg s bs \<longleftrightarrow>
     heap_ok cfg s bs \<and> no_touching (blk_size s) (filter (is_free cfg s) bs)"

text \<open>The lines of part (a) of the dump cover the arena: offsets and sizes add up.\<close>

fun covers :: "nat \<Rightarrow> block_line list \<Rightarrow> nat \<Rightarrow> bool" where
  "covers a [] e \<longleftrightarrow> a = e"
| "covers a ((off, sz, used) # ls) e \<longleftrightarrow> unat off = a \<and> 0 < unat sz \<and> covers (a + unat sz) ls e"

subsection \<open>Reachable states\<close>

text \<open>
  The states reached from \<^verbatim>\<open>initAllocator\<close> by calls of \<^verbatim>\<open>my_malloc\<close> and \<^verbatim>\<open>my_free\<close> that
  return, together with the pointers handed out and not yet freed. \<^verbatim>\<open>my_free\<close> is called
  with \<^verbatim>\<open>NULL\<close> or with one of these pointers, as its contract demands.
\<close>

inductive reachable :: "config \<Rightarrow> state \<Rightarrow> addr set \<Rightarrow> bool" for cfg :: config where
  init: "reachable cfg (initAllocator cfg s0) {}"
| malloc: "reachable cfg s live \<Longrightarrow> my_malloc cfg n s = Some (Returns p s') \<Longrightarrow>
     reachable cfg s' (if p = 0 then live else insert p live)"
| free: "reachable cfg s live \<Longrightarrow> p \<in> live \<Longrightarrow> my_free cfg p s = Some (Returns () s') \<Longrightarrow>
     reachable cfg s' (live - {p})"
| free_null: "reachable cfg s live \<Longrightarrow> my_free cfg 0 s = Some (Returns () s') \<Longrightarrow>
     reachable cfg s' live"

text \<open>
  The invariant behind the partition: a set \<open>K\<close> of header addresses, closed under the
  size-derived successor, that holds every pointer the allocator stores.
\<close>

definition block_known ::
  "config \<Rightarrow> addr set \<Rightarrow> (addr \<Rightarrow> 64 word) \<Rightarrow> (addr \<Rightarrow> addr) \<Rightarrow> addr \<Rightarrow> bool" where
  "block_known cfg K sz nx k \<longleftrightarrow>
     is_header cfg k \<and>
     16 \<le> unat (sz k) \<and> unat (sz k) mod 16 = 0 \<and>
     unat k + unat (sz k) \<le> unat (heapData cfg) + unat (HEAP_SIZE cfg) \<and>
     (unat k + unat (sz k) = unat (heapData cfg) + unat (HEAP_SIZE cfg) \<or> k + sz k \<in> K) \<and>
     nx k \<in> K \<union> {0, ALLOCATED_BLOCK_MAGIC cfg}"

definition known_inv :: "config \<Rightarrow> state \<Rightarrow> addr set \<Rightarrow> bool" where
  "known_inv cfg s K \<longleftrightarrow>
     heapData cfg \<in> K \<and>
     firstFreeBlock s \<in> K \<union> {0, ALLOCATED_BLOCK_MAGIC cfg} \<and>
     (\<forall>k\<in>K. block_known cfg K (blk_size s) (blk_next s) k)"

text \<open>The pointer that \<open>allocate_block\<close> updates lies in a known header.\<close>

fun slot_known :: "addr set \<Rightarrow> slot \<Rightarrow> bool" where
  "slot_known K Head = True"
| "slot_known K (NextOf p) = (p \<in> K)"

subsection \<open>A small arena\<close>

text \<open>A configuration with a 64-byte arena at address 4096, and a memory of zeros.\<close>

definition example_config :: config where
  "example_config = \<lparr>HEAP_SIZE = 64, heapData = 4096,
     ALLOCATED_BLOCK_MAGIC = 0xbaadf00d, relock_blocks = False\<rparr>"

definition blank :: state where
  "blank = \<lparr>blk_size = (\<lambda>_. 0), blk_next = (\<lambda>_. 0), firstFreeBlock = 0, lock = False\<rparr>"

definition two_free :: state where
  "two_free = \<lparr>blk_size = (\<lambda>_. 0)(4096 := 16, 4112 := 16, 4128 := 32),
     blk_next = (\<lambda>_. 0)(4096 := 4128, 4112 := 0xbaadf00d, 4128 := 0),
     firstFreeBlock = 4096, lock = False\<rparr>"

text \<open>The same arena on a platform where locking a mutex twice blocks for ever.\<close>

definition blocking_config :: config where
  "blocking_config = example_config\<lparr>relock_blocks := True\<rparr>"

text \<open>The small arena after \<open>my_malloc 0\<close>: a block in use at 4096, the rest free.\<close>

definition one_alloc :: state where
  "one_alloc = \<lparr>blk_size = (\<lambda>_. 0)(4096 := 16, 4112 := 48),
     blk_next = (\<lambda>_. 0)(4096 := 0xbaadf00d, 4112 := 0),
     firstFreeBlock = 4112, lock = False\<rparr>"

text \<open>The small arena after every block has been freed and merged again.\<close>

definition all_merged :: state where
  "all_merged = \<lparr>blk_size = (\<lambda>_. 0)(4096 := 64, 4112 := 48, 4128 := 32),
     blk_next = (\<lambda>_. 0), firstFreeBlock = 4096, lock = False\<rparr>"

section \<open>Basic facts\<close>

subsection \<open>Words\<close>

lemma unat_lt64: "unat (x :: 64 word) < 2 ^ 64"
  using unsigned_less [of x, where 'a = nat] by simp

lemma unat_plus64: "unat (x :: 64 word) + unat y < 2 ^ 64 \<Longrightarrow> unat (x + y) = unat x + unat y"
  by (simp add: unat_add_lem [THEN iffD1])

lemma unat_minus64: "unat (y :: 64 word) \<le> unat x \<Longrightarrow> unat (x - y) = unat x - unat y"
  by (simp add: unat_sub word_le_nat_alt)

subsection \<open>Partitions\<close>

lemma blocks_between_le: "blocks_between sz a bs e \<Longrightarrow> a \<le> e"
proof (induction bs arbitrary: a)
  case Nil
  then show ?case by simp
next
  case (Cons c bs)
  then have "a + unat (sz c) \<le> e"
    by simp
  then show ?case
    by simp
qed

lemma blocks_between_mem:
  "blocks_between sz a bs e \<Longrightarrow> b \<in> set bs \<Longrightarrow>
     a \<le> unat b \<and> unat b + unat (sz b) \<le> e \<and> 16 \<le> unat (sz b) \<and> unat (sz b) mod 16 = 0"
proof (induction bs arbitrary: a)
  case Nil
  then show ?case by simp
next
  case (Cons c bs)
  show ?case
  proof (cases "b = c")
    case True
    with Cons.prems blocks_between_le [of sz "a + unat (sz c)" bs e] show ?thesis
      by auto
  next
    case False
    with Cons.prems have "b \<in> set bs" and "blocks_between sz (a + unat (sz c)) bs e"
      by auto
    from Cons.IH [OF this(2) this(1)] show ?thesis
      by auto
  qed
qed

lemma blocks_between_aligned:
  "blocks_between sz a bs e \<Longrightarrow> a mod 16 = 0 \<Longrightarrow> b \<in> set bs \<Longrightarrow> unat b mod 16 = 0"
proof (induction bs arbitrary: a)
  case Nil
  then show ?case by simp
next
  case (Cons c bs)
  from Cons.prems have "(a + unat (sz c)) mod 16 = 0"
    by (simp add: mod_add_eq [symmetric])
  with Cons show ?case
    by auto
qed

lemma blocks_between_append:
  "blocks_between sz a (xs @ ys) e \<longleftrightarrow>
     (\<exists>m. blocks_between sz a xs m \<and> blocks_between sz m ys e)"
  by (induction xs arbitrary: a) auto

lemma blocks_between_cong:
  "(\<And>b. b \<in> set bs \<Longrightarrow> sz' b = sz b) \<Longrightarrow>
     blocks_between sz' a bs e = blocks_between sz a bs e"
  by (induction bs arbitrary: a) auto

lemma blocks_between_unique_end:
  "blocks_between sz a bs e \<Longrightarrow> blocks_between sz a bs e' \<Longrightarrow> e = e'"
  by (induction bs arbitrary: a) auto

lemma blocks_between_sum:
  "blocks_between sz a bs e \<Longrightarrow> a + sum_list (map (\<lambda>b. unat (sz b)) bs) = e"
proof (induction bs arbitrary: a)
  case Nil
  then show ?case by simp
next
  case (Cons c bs)
  then have "a + unat (sz c) + sum_list (map (\<lambda>b. unat (sz b)) bs) = e"
    by simp
  then show ?case
    by simp
qed

lemma blocks_between_sorted:
  "blocks_between sz a bs e \<Longrightarrow> sorted_wrt (\<lambda>x y. unat x + unat (sz x) \<le> unat y) bs"
proof (induction bs arbitrary: a)
  case Nil
  then show ?case by simp
next
  case (Cons c bs)
  then have rest: "blocks_between sz (a + unat (sz c)) bs e" and c: "unat c = a"
    by auto
  have "\<forall>y\<in>set bs. unat c + unat (sz c) \<le> unat y"
    using blocks_between_mem [OF rest] c by auto
  with Cons.IH [OF rest] show ?case
    by simp
qed

lemma blocks_between_distinct: "blocks_between sz a bs e \<Longrightarrow> distinct bs"
proof (induction bs arbitrary: a)
  case Nil
  then show ?case by simp
next
  case (Cons c bs)
  then have rest: "blocks_between sz (a + unat (sz c)) bs e" and c: "unat c = a"
    and pos: "16 \<le> unat (sz c)"
    by auto
  have "c \<notin> set bs"
    using blocks_between_mem [OF rest, of c] c pos by auto
  with Cons.IH [OF rest] show ?case
    by simp
qed

lemma blocks_between_header:
  assumes "wf_config cfg"
    and "blocks_between sz a bs (unat (heapData cfg) + unat (HEAP_SIZE cfg))"
    and "unat (heapData cfg) \<le> a" and "a mod 16 = 0" and "b \<in> set bs"
  shows "is_header cfg b"
  using blocks_between_mem [OF assms(2,5)] blocks_between_aligned [OF assms(2,4,5)] assms(3)
  by (auto simp: is_header_def)

subsection \<open>Paths\<close>

lemma next_path_append:
  "next_path nx p (xs @ ys) q \<longleftrightarrow> (\<exists>m. next_path nx p xs m \<and> next_path nx m ys q)"
  by (induction xs arbitrary: p) auto

lemma next_path_cong:
  "(\<And>a. a \<in> set as \<Longrightarrow> nx' a = nx a) \<Longrightarrow> next_path nx' p as q = next_path nx p as q"
  by (induction as arbitrary: p) auto

lemma next_path_nonzero: "next_path nx p as q \<Longrightarrow> 0 \<notin> set as"
  by (induction as arbitrary: p) auto

lemma next_path_hd: "next_path nx p as q \<Longrightarrow> as \<noteq> [] \<Longrightarrow> p = hd as"
  by (cases as) auto

lemma next_path_snoc:
  "next_path nx p (as @ [a]) q \<longleftrightarrow> next_path nx p as a \<and> a \<noteq> 0 \<and> nx a = q"
  by (auto simp: next_path_append)

subsection \<open>The search loop of my_malloc\<close>

lemma my_malloc_loop_found:
  assumes "next_path (blk_next s) p (pre @ [b]) q"
    and "\<forall>f\<in>set pre. is_header cfg f \<and> \<not> sz \<le> blk_size s f"
    and "is_header cfg b" and "sz \<le> blk_size s b"
  shows "my_malloc_loop cfg s sz slot p =
           Some (Returns (if pre = [] then slot else NextOf (last pre), b) s)"
  using assms
proof (induction pre arbitrary: p slot)
  case Nil
  then show ?case
    by (subst my_malloc_loop.simps) auto
next
  case (Cons f pre)
  from Cons.prems have p: "p = f" "f \<noteq> 0"
    and rest: "next_path (blk_next s) (blk_next s f) (pre @ [b]) q"
    by auto
  have "my_malloc_loop cfg s sz slot p = my_malloc_loop cfg s sz (NextOf f) (blk_next s f)"
    using Cons.prems p by (subst my_malloc_loop.simps) auto
  also have "\<dots> = Some (Returns (if pre = [] then NextOf f else NextOf (last pre), b) s)"
    using Cons.IH [OF rest] Cons.prems by auto
  finally show ?case
    by auto
qed

lemma my_malloc_loop_none:
  assumes "next_path (blk_next s) p fs 0"
    and "\<forall>f\<in>set fs. is_header cfg f \<and> \<not> sz \<le> blk_size s f"
  shows "my_malloc_loop cfg s sz slot p =
           Some (Returns (if fs = [] then slot else NextOf (last fs), 0) s)"
  using assms
proof (induction fs arbitrary: p slot)
  case Nil
  then show ?case
    by (subst my_malloc_loop.simps) auto
next
  case (Cons f fs)
  from Cons.prems have p: "p = f" "f \<noteq> 0"
    and rest: "next_path (blk_next s) (blk_next s f) fs 0"
    by auto
  have "my_malloc_loop cfg s sz slot p = my_malloc_loop cfg s sz (NextOf f) (blk_next s f)"
    using Cons.prems p by (subst my_malloc_loop.simps) auto
  also have "\<dots> = Some (Returns (if fs = [] then NextOf f else NextOf (last fs), 0) s)"
    using Cons.IH [OF rest] Cons.prems by auto
  finally show ?case
    by auto
qed

subsection \<open>roundUp in natural numbers\<close>

lemma fifteen_mask: "(0xF :: 64 word) = mask 4"
  by (simp add: mask_eq_exp_minus_1)

lemma and_not_15: "(x :: 64 word) AND NOT 0xF = push_bit 4 (drop_bit 4 x)"
  unfolding fifteen_mask
  by (rule bit_word_eqI) (auto simp: bit_simps)

lemma unat_and_not_15: "unat ((x :: 64 word) AND NOT 0xF) = 16 * (unat x div 16)"
proof -
  have "16 * (unat x div 16) \<le> unat x"
    by simp
  with unat_lt64 [of x] have small: "16 * (unat x div 16) < 2 ^ 64"
    by linarith
  have "unat (push_bit 4 (drop_bit 4 x)) = take_bit 64 (push_bit 4 (drop_bit 4 (unat x)))"
    by (simp add: unsigned_push_bit_eq unat_drop_bit_eq)
  also have "\<dots> = (16 * (unat x div 16)) mod 2 ^ 64"
    by (simp add: take_bit_eq_mod push_bit_eq_mult drop_bit_eq_div mult.commute)
  also have "\<dots> = 16 * (unat x div 16)"
    using small by simp
  finally show ?thesis
    by (simp only: and_not_15)
qed

lemma unat_roundUp:
  assumes "unat n \<le> 2 ^ 64 - 16"
  shows "unat (roundUp n) = 16 * ((unat n + 15) div 16)"
proof -
  have "unat n + unat (0xF :: 64 word) < 2 ^ 64"
    using assms by simp
  then have "unat (n + 0xF) = unat n + unat (0xF :: 64 word)"
    by (rule unat_plus64)
  then show ?thesis
    by (simp only: roundUp_def unat_and_not_15) simp
qed

lemma roundUp_wraps:
  assumes "2 ^ 64 - 16 < unat n"
  shows "roundUp n = 0"
proof -
  have "unat (n + 0xF) = (unat n + 15) mod 2 ^ 64"
    by (simp add: unat_word_ariths)
  also have "\<dots> = unat n + 15 - 2 ^ 64"
    using assms unat_lt64 [of n] by (simp add: mod_if)
  finally have "unat (n + 0xF) < 16"
    using unat_lt64 [of n] by simp
  then have "unat (roundUp n) = 0"
    by (simp only: roundUp_def unat_and_not_15) simp
  then show ?thesis
    by (simp add: unat_eq_0)
qed

text \<open>The size \<^verbatim>\<open>my_malloc\<close> searches for, when it does not wrap around.\<close>

lemma unat_needed:
  assumes "16 * ((unat n + 15) div 16) + 16 < 2 ^ 64"
  shows "unat (roundUp n + HEADER_SIZE) = 16 * ((unat n + 15) div 16) + 16"
proof -
  have "unat n \<le> 16 * ((unat n + 15) div 16)"
    by presburger
  with assms have n: "unat n \<le> 2 ^ 64 - 16"
    by simp
  have "unat (roundUp n) + unat (16 :: 64 word) < 2 ^ 64"
    using assms unat_roundUp [OF n] by simp
  then have "unat (roundUp n + 16) = unat (roundUp n) + unat (16 :: 64 word)"
    by (rule unat_plus64)
  then show ?thesis
    using unat_roundUp [OF n] by (simp add: HEADER_SIZE_def)
qed

subsection \<open>What allocate_block returns\<close>

lemma unat_heap_end:
  "wf_config cfg \<Longrightarrow> unat (heap_end cfg) = unat (heapData cfg) + unat (HEAP_SIZE cfg)"
  by (simp add: heap_end_def wf_config_def unat_plus64)

lemma getNextBlockBySize_inside:
  assumes "wf_config cfg" and "is_header cfg current"
    and "16 \<le> unat (blk_size s current)"
    and "unat current + unat (blk_size s current) < unat (heapData cfg) + unat (HEAP_SIZE cfg)"
  shows "getNextBlockBySize cfg s current = Returns (current + blk_size s current) s"
proof -
  have lt: "unat current + unat (blk_size s current) < 2 ^ 64"
    using assms by (simp add: wf_config_def)
  then have sum: "unat (current + blk_size s current) = unat current + unat (blk_size s current)"
    by (rule unat_plus64)
  have "current + blk_size s current \<le> heap_end cfg"
    using assms sum by (simp add: word_le_nat_alt unat_heap_end)
  moreover have "current + blk_size s current \<noteq> heap_end cfg"
    using assms sum unat_heap_end [OF assms(1)] by auto
  ultimately show ?thesis
    using assms(2) by (simp add: getNextBlockBySize_def HEADER_SIZE_def)
qed

lemma allocate_block_split:
  assumes wf: "wf_config cfg" and lk: "\<not> (lock s \<and> relock_blocks cfg)"
    and hd: "is_header cfg block" and sl: "slot_ok cfg update_next"
    and lt: "unat new_size < unat (blk_size s block)"
    and ge: "16 \<le> unat new_size" and al: "unat new_size mod 16 = 0"
    and al': "unat (blk_size s block) mod 16 = 0"
    and en: "unat block + unat (blk_size s block) \<le> unat (heapData cfg) + unat (HEAP_SIZE cfg)"
  shows "\<exists>s'. allocate_block cfg update_next block new_size s = Returns (block + HEADER_SIZE) s' \<and>
           blk_size s' = (blk_size s)
              (block := new_size, block + new_size := blk_size s block - new_size) \<and>
           blk_next s' = blk_next (store_slot update_next (block + new_size)
              (s\<lparr>blk_next := (blk_next s)
                   (block + new_size := blk_next s block, block := ALLOCATED_BLOCK_MAGIC cfg)\<rparr>)) \<and>
           firstFreeBlock s' = firstFreeBlock (store_slot update_next (block + new_size) s) \<and>
           lock s' = False"
proof -
  let ?s1 = "s\<lparr>lock := True\<rparr>"
  let ?s2 = "?s1\<lparr>blk_size := (blk_size ?s1)(block := new_size)\<rparr>"
  have le: "new_size \<le> blk_size s block" and ne: "blk_size s block \<noteq> new_size"
    using lt by (auto simp: word_le_nat_alt)
  have sum: "unat (block + new_size) = unat block + unat new_size"
    using lt en wf by (intro unat_plus64) (simp add: wf_config_def)
  have nxt: "getNextBlockBySize cfg (s\<lparr>lock := True, blk_size := (blk_size s)(block := new_size)\<rparr>) block =
      Returns (block + new_size) (s\<lparr>lock := True, blk_size := (blk_size s)(block := new_size)\<rparr>)"
    using getNextBlockBySize_inside [OF wf hd, of ?s2] ge lt en by simp
  have diff: "16 \<le> unat (blk_size s block) - unat new_size"
    using lt al al' by presburger
  have hd': "is_header cfg (block + new_size)"
    using hd sum lt en al diff by (auto simp: is_header_def mod_add_eq [symmetric])
  have neq: "block + new_size \<noteq> block"
    using sum ge by auto
  show ?thesis
    using lk hd sl le ne hd' neq
    by (cases update_next)
      (simp_all add: allocate_block_def pthread_mutex_lock_def pthread_mutex_unlock_def nxt Let_def)
qed

lemma allocate_block_exact:
  assumes lk: "\<not> (lock s \<and> relock_blocks cfg)"
    and hd: "is_header cfg block" and sl: "slot_ok cfg update_next"
    and eq: "blk_size s block = new_size"
  shows "\<exists>s'. allocate_block cfg update_next block new_size s = Returns (block + HEADER_SIZE) s' \<and>
           blk_size s' = blk_size s \<and>
           blk_next s' = (blk_next (store_slot update_next (blk_next s block) s))
                            (block := ALLOCATED_BLOCK_MAGIC cfg) \<and>
           firstFreeBlock s' = firstFreeBlock (store_slot update_next (blk_next s block) s) \<and>
           lock s' = True"
  using assms by (cases update_next) (simp_all add: allocate_block_def pthread_mutex_lock_def)

subsection \<open>my_malloc on a well-formed heap\<close>

lemma pthread_mutex_lock_free:
  "\<not> (lock s \<and> relock_blocks cfg) \<Longrightarrow> pthread_mutex_lock cfg s = Returns () (s\<lparr>lock := True\<rparr>)"
  by (simp add: pthread_mutex_lock_def)

lemma heap_ok_block:
  assumes "wf_config cfg" and "heap_ok cfg s bs" and "b \<in> set bs"
  shows "is_header cfg b" and "16 \<le> unat (blk_size s b)" and "unat (blk_size s b) mod 16 = 0"
    and "unat b + unat (blk_size s b) \<le> unat (heapData cfg) + unat (HEAP_SIZE cfg)"
    and "b \<noteq> 0"
proof -
  have bb: "blocks_between (blk_size s) (unat (heapData cfg)) bs
              (unat (heapData cfg) + unat (HEAP_SIZE cfg))"
    using assms(2) by (simp add: heap_ok_def)
  show h: "is_header cfg b"
    using blocks_between_header [OF assms(1) bb _ _ assms(3)] assms(1)
    by (simp add: wf_config_def)
  show "16 \<le> unat (blk_size s b)" "unat (blk_size s b) mod 16 = 0"
    "unat b + unat (blk_size s b) \<le> unat (heapData cfg) + unat (HEAP_SIZE cfg)"
    using blocks_between_mem [OF bb assms(3)] by auto
  have "0 < unat (heapData cfg)"
    using assms(1) by (simp add: wf_config_def unat_gt_0)
  with h show "b \<noteq> 0"
    by (auto simp: is_header_def)
qed

lemma heap_ok_disjoint:
  assumes "heap_ok cfg s bs" and "a \<in> set bs" and "b \<in> set bs" and "a \<noteq> b"
  shows "unat a + unat (blk_size s a) \<le> unat b \<or> unat b + unat (blk_size s b) \<le> unat a"
proof -
  have "sorted_wrt (\<lambda>x y. unat x + unat (blk_size s x) \<le> unat y) bs"
    using assms(1) by (auto simp: heap_ok_def dest: blocks_between_sorted)
  then show ?thesis
    using assms(2-4) by (auto simp: sorted_wrt_iff_nth_less in_set_conv_nth)
      (metis linorder_neqE_nat)
qed

lemma heap_ok_distinct: "heap_ok cfg s bs \<Longrightarrow> distinct bs"
  by (auto simp: heap_ok_def dest: blocks_between_distinct)

lemma my_malloc_found:
  assumes wf: "wf_config cfg" and ok: "heap_ok cfg s bs"
    and lk: "\<not> (lock s \<and> relock_blocks cfg)"
    and fs: "filter (is_free cfg s) bs = pre @ b # post"
    and small: "\<forall>f\<in>set pre. \<not> roundUp n + HEADER_SIZE \<le> blk_size s f"
    and fit: "roundUp n + HEADER_SIZE \<le> blk_size s b"
  shows "my_malloc cfg n s =
           Some (allocate_block cfg (if pre = [] then Head else NextOf (last pre)) b
                   (roundUp n + HEADER_SIZE) (s\<lparr>lock := False\<rparr>))"
proof -
  let ?s1 = "s\<lparr>lock := True\<rparr>"
  have sub: "set (pre @ b # post) \<subseteq> set bs"
    using fs by (metis filter_is_subset)
  then have hb: "is_header cfg b" and b0: "b \<noteq> 0"
    using heap_ok_block [OF wf ok, of b] by auto
  have hpre: "\<forall>f\<in>set pre. is_header cfg f"
    using sub heap_ok_block(1) [OF wf ok] by auto
  have "next_path (blk_next s) (firstFreeBlock s) ((pre @ [b]) @ post) 0"
    using ok fs by (simp add: heap_ok_def)
  then obtain q where "next_path (blk_next s) (firstFreeBlock s) (pre @ [b]) q"
    unfolding next_path_append by blast
  then have "next_path (blk_next ?s1) (firstFreeBlock ?s1) (pre @ [b]) q"
    by simp
  from my_malloc_loop_found [OF this, of cfg "roundUp n + HEADER_SIZE" Head]
  have "my_malloc_loop cfg ?s1 (roundUp n + HEADER_SIZE) Head (firstFreeBlock ?s1) =
      Some (Returns (if pre = [] then Head else NextOf (last pre), b) ?s1)"
    using hpre small hb fit by simp
  then show ?thesis
    using b0 by (simp add: my_malloc_def pthread_mutex_lock_free [OF lk] pthread_mutex_unlock_def)
qed

lemma my_malloc_not_found:
  assumes wf: "wf_config cfg" and ok: "heap_ok cfg s bs"
    and lk: "\<not> (lock s \<and> relock_blocks cfg)"
    and small: "\<forall>f\<in>set (filter (is_free cfg s) bs). \<not> roundUp n + HEADER_SIZE \<le> blk_size s f"
  shows "my_malloc cfg n s = Some (Returns 0 (s\<lparr>lock := True\<rparr>))"
proof -
  let ?s1 = "s\<lparr>lock := True\<rparr>"
  let ?fs = "filter (is_free cfg s) bs"
  have h: "\<forall>f\<in>set ?fs. is_header cfg f"
    using heap_ok_block(1) [OF wf ok] by auto
  have "next_path (blk_next ?s1) (firstFreeBlock ?s1) ?fs 0"
    using ok by (simp add: heap_ok_def)
  from my_malloc_loop_none [OF this, of cfg "roundUp n + HEADER_SIZE" Head]
  have "my_malloc_loop cfg ?s1 (roundUp n + HEADER_SIZE) Head (firstFreeBlock ?s1) =
      Some (Returns (if ?fs = [] then Head else NextOf (last ?fs), 0) ?s1)"
    using h small by simp
  then show ?thesis
    by (simp add: my_malloc_def pthread_mutex_lock_free [OF lk])
qed

lemma next_path_retarget:
  "next_path nx p as q \<Longrightarrow> as \<noteq> [] \<Longrightarrow> distinct as \<Longrightarrow>
     (\<forall>a\<in>set (butlast as). nx' a = nx a) \<Longrightarrow> nx' (last as) = q' \<Longrightarrow>
     next_path nx' p as q'"
proof (induction as arbitrary: p)
  case Nil
  then show ?case by simp
next
  case (Cons a as)
  show ?case
  proof (cases "as = []")
    case True
    with Cons.prems show ?thesis by simp
  next
    case False
    with Cons.prems Cons.IH [of "nx a"] show ?thesis
      by auto
  qed
qed

lemma inside_not_block:
  assumes ok: "heap_ok cfg s bs" and b: "b \<in> set bs"
    and k: "0 < unat k" "unat k < unat (blk_size s b)"
    and nowrap: "unat b + unat (blk_size s b) < 2 ^ 64"
  shows "b + k \<notin> set bs"
proof
  assume c: "b + k \<in> set bs"
  have sum: "unat (b + k) = unat b + unat k"
    using k nowrap by (intro unat_plus64) simp
  then have "b + k \<noteq> b"
    using k by auto
  from heap_ok_disjoint [OF ok c b this] sum k
  have "unat b + unat k + unat (blk_size s (b + k)) \<le> unat b"
    by auto
  then show False
    using k by simp
qed

lemma heap_ok_nowrap:
  assumes "wf_config cfg" and "heap_ok cfg s bs" and "b \<in> set bs"
  shows "unat b + unat (blk_size s b) < 2 ^ 64"
  using heap_ok_block(4) [OF assms] assms(1) by (simp add: wf_config_def)

lemma heap_ok_free_distinct:
  "heap_ok cfg s bs \<Longrightarrow> distinct (filter (is_free cfg s) bs)"
  by (simp add: heap_ok_distinct)

lemma wf_example: "wf_config example_config"
  by (simp add: wf_config_def example_config_def is_header_def)

lemma heap_ok_fresh: "heap_ok example_config (initAllocator example_config blank) [4096]"
  by (simp add: heap_ok_def example_config_def initAllocator_def blank_def is_free_def)

lemma next_path_replace:
  assumes path: "next_path nx p (pre @ b # post) 0"
    and dist: "distinct (pre @ b # post)"
    and c: "c \<notin> set (pre @ b # post)" "c \<noteq> 0"
  shows "pre = [] \<Longrightarrow> next_path (nx(c := nx b, b := X)) c (c # post) 0"
    and "pre \<noteq> [] \<Longrightarrow>
           next_path ((nx(c := nx b, b := X))(last pre := c)) p (pre @ c # post) 0"
proof -
  from path obtain m where pre: "next_path nx p pre m" and rest: "next_path nx m (b # post) 0"
    unfolding next_path_append by blast
  then have m: "m = b" and post: "next_path nx (nx b) post 0"
    by auto
  {
    assume "pre = []"
    have "next_path (nx(c := nx b, b := X)) (nx b) post 0 = next_path nx (nx b) post 0"
      by (rule next_path_cong) (use dist c in auto)
    with post have "next_path (nx(c := nx b, b := X)) (nx b) post 0"
      by simp
    then show "next_path (nx(c := nx b, b := X)) c (c # post) 0"
      using c dist by auto
  next
    assume ne: "pre \<noteq> []"
    let ?nx = "(nx(c := nx b, b := X))(last pre := c)"
    have lp: "last pre \<in> set pre"
      using ne by simp
    then have lp_b: "last pre \<noteq> b" and lp_c: "last pre \<noteq> c" and lp_post: "last pre \<notin> set post"
      using dist c by auto
    have upd: "\<forall>a\<in>set (butlast pre). ?nx a = nx a"
    proof
      fix a assume a: "a \<in> set (butlast pre)"
      then have "a \<in> set pre"
        by (rule in_set_butlastD)
      moreover have "distinct (butlast pre @ [last pre])"
        using ne dist by simp
      then have "a \<noteq> last pre"
        using a by auto
      ultimately show "?nx a = nx a"
        using dist c by auto
    qed
    have lastc: "?nx (last pre) = c"
      by simp
    have dpre: "distinct pre"
      using dist by simp
    have 1: "next_path ?nx p pre c"
      by (rule next_path_retarget [OF pre ne dpre upd lastc])
    have "next_path ?nx (nx b) post 0 = next_path nx (nx b) post 0"
      by (rule next_path_cong) (use dist c lp_post in auto)
    with post have 2: "next_path ?nx (nx b) post 0"
      by simp
    have "?nx c = nx b"
      using lp_c c dist by auto
    with 1 2 c show "next_path ?nx p (pre @ c # post) 0"
      unfolding next_path_append by auto
  }
qed

text \<open>What the search of \<open>my_malloc\<close> needs from a first-fit decomposition of the free list.\<close>

lemma first_fit_setup:
  assumes wf: "wf_config cfg" and ok: "heap_ok cfg s bs"
    and fs: "filter (is_free cfg s) bs = pre @ b # post"
    and small: "\<forall>f\<in>set pre. unat (blk_size s f) < 16 * ((unat n + 15) div 16) + 16"
    and fit: "16 * ((unat n + 15) div 16) + 16 \<le> unat (blk_size s b)"
  shows "unat (roundUp n + HEADER_SIZE) = 16 * ((unat n + 15) div 16) + 16"
    and "\<forall>f\<in>set pre. \<not> roundUp n + HEADER_SIZE \<le> blk_size s f"
    and "roundUp n + HEADER_SIZE \<le> blk_size s b"
    and "b \<in> set bs" and "is_free cfg s b"
    and "slot_ok cfg (if pre = [] then Head else NextOf (last pre))"
    and "pre \<noteq> [] \<Longrightarrow> last pre \<in> set bs \<and> is_free cfg s (last pre) \<and> last pre \<noteq> b"
proof -
  have "16 * ((unat n + 15) div 16) + 16 < 2 ^ 64"
    using fit unat_lt64 [of "blk_size s b"] by linarith
  then show sz: "unat (roundUp n + HEADER_SIZE) = 16 * ((unat n + 15) div 16) + 16"
    by (rule unat_needed)
  show "\<forall>f\<in>set pre. \<not> roundUp n + HEADER_SIZE \<le> blk_size s f"
    using small sz by (auto simp: word_le_nat_alt)
  show "roundUp n + HEADER_SIZE \<le> blk_size s b"
    using fit sz by (simp add: word_le_nat_alt)
  have "b \<in> set (filter (is_free cfg s) bs)"
    using fs by simp
  then show b: "b \<in> set bs" "is_free cfg s b"
    by auto
  have lp: "last pre \<in> set bs \<and> is_free cfg s (last pre) \<and> last pre \<noteq> b" if "pre \<noteq> []"
  proof -
    have "last pre \<in> set pre"
      using that by simp
    then have "last pre \<in> set (filter (is_free cfg s) bs)"
      using fs by simp
    moreover have "distinct (pre @ b # post)"
      using heap_ok_free_distinct [OF ok] fs by simp
    ultimately show ?thesis
      using \<open>last pre \<in> set pre\<close> by auto
  qed
  then show "pre \<noteq> [] \<Longrightarrow> last pre \<in> set bs \<and> is_free cfg s (last pre) \<and> last pre \<noteq> b" .
  show "slot_ok cfg (if pre = [] then Head else NextOf (last pre))"
    using lp heap_ok_block(1) [OF wf ok] by auto
qed



lemma lock_fresh: "\<not> (lock (initAllocator example_config blank) \<and> relock_blocks example_config)"
  by (simp add: initAllocator_def)

subsection \<open>Running the loops one step at a time\<close>

lemmas example_simps =
  example_config_def blank_def initAllocator_def is_header_def heap_end_def HEADER_SIZE_def
  pthread_mutex_lock_def pthread_mutex_unlock_def

lemma my_free_loop_fault:
  "\<not> is_header cfg freeblock \<Longrightarrow> my_free_loop cfg s block freeblock = Some Fault"
  by (subst my_free_loop.simps) simp

lemma my_free_loop_stop:
  "is_header cfg freeblock \<Longrightarrow> \<not> (blk_next s freeblock < block \<and> blk_next s freeblock \<noteq> 0) \<Longrightarrow>
     my_free_loop cfg s block freeblock = Some (Returns freeblock s)"
  by (subst my_free_loop.simps) auto

lemma my_free_loop_step:
  "is_header cfg freeblock \<Longrightarrow> blk_next s freeblock < block \<Longrightarrow> blk_next s freeblock \<noteq> 0 \<Longrightarrow>
     my_free_loop cfg s block freeblock = my_free_loop cfg s block (blk_next s freeblock)"
  by (subst my_free_loop.simps) simp

lemma my_malloc_loop_null:
  "my_malloc_loop cfg s sz prevptr 0 = Some (Returns (prevptr, 0) s)"
  by (subst my_malloc_loop.simps) simp

lemma my_malloc_loop_fit:
  "block \<noteq> 0 \<Longrightarrow> is_header cfg block \<Longrightarrow> sz \<le> blk_size s block \<Longrightarrow>
     my_malloc_loop cfg s sz prevptr block = Some (Returns (prevptr, block) s)"
  by (subst my_malloc_loop.simps) simp

lemma my_malloc_loop_step:
  "block \<noteq> 0 \<Longrightarrow> is_header cfg block \<Longrightarrow> \<not> sz \<le> blk_size s block \<Longrightarrow>
     my_malloc_loop cfg s sz prevptr block =
       my_malloc_loop cfg s sz (NextOf block) (blk_next s block)"
  by (subst my_malloc_loop.simps) simp

lemma my_malloc_loop_fault:
  "block \<noteq> 0 \<Longrightarrow> \<not> is_header cfg block \<Longrightarrow>
     my_malloc_loop cfg s sz prevptr block = Some Fault"
  by (subst my_malloc_loop.simps) simp

lemmas loop_simps = my_free_loop_fault my_free_loop_stop my_free_loop_step
  my_malloc_loop_null my_malloc_loop_fit my_malloc_loop_step my_malloc_loop_fault

subsection \<open>The known headers\<close>

lemma block_known_mono:
  "block_known cfg K sz nx k \<Longrightarrow> K \<subseteq> K' \<Longrightarrow> block_known cfg K' sz nx k"
  by (auto simp: block_known_def)

lemma block_known_next:
  "block_known cfg K sz nx k \<Longrightarrow> nx' k \<in> K \<union> {0, ALLOCATED_BLOCK_MAGIC cfg} \<Longrightarrow>
     block_known cfg K sz nx' k"
  by (simp add: block_known_def)

lemma block_known_cong:
  "sz' k = sz k \<Longrightarrow> nx' k = nx k \<Longrightarrow> block_known cfg K sz' nx' k = block_known cfg K sz nx k"
  by (simp add: block_known_def)

lemma known_inv_lock [simp]: "known_inv cfg (s\<lparr>lock := l\<rparr>) K = known_inv cfg s K"
  by (simp add: known_inv_def)

lemma known_invD:
  assumes "known_inv cfg s K" and "k \<in> K"
  shows "is_header cfg k" and "16 \<le> unat (blk_size s k)" and "unat (blk_size s k) mod 16 = 0"
    and "unat k + unat (blk_size s k) \<le> unat (heapData cfg) + unat (HEAP_SIZE cfg)"
    and "unat k + unat (blk_size s k) = unat (heapData cfg) + unat (HEAP_SIZE cfg) \<or>
         k + blk_size s k \<in> K"
    and "blk_next s k \<in> K \<union> {0, ALLOCATED_BLOCK_MAGIC cfg}"
  using assms by (auto simp: known_inv_def block_known_def)

lemma not_header_null: "wf_config cfg \<Longrightarrow> \<not> is_header cfg 0"
  by (auto simp: wf_config_def is_header_def unat_gt_0)

lemma known_header:
  assumes "wf_config cfg" and "p \<in> K \<union> {0, ALLOCATED_BLOCK_MAGIC cfg}" and "is_header cfg p"
  shows "p \<in> K"
  using assms not_header_null [OF assms(1)] by (auto simp: wf_config_def)

lemma known_inv_init:
  assumes "wf_config cfg"
  shows "known_inv cfg (initAllocator cfg s0) {heapData cfg}"
  using assms
  by (simp add: known_inv_def block_known_def initAllocator_def wf_config_def is_header_def)

lemma my_malloc_loop_known:
  assumes "my_malloc_loop cfg s sz slot p = Some (Returns (slot', b) s0)"
    and "wf_config cfg" and "known_inv cfg s K"
    and "p \<in> K \<union> {0, ALLOCATED_BLOCK_MAGIC cfg}" and "slot_known K slot"
  shows "s0 = s \<and> (b = 0 \<or> b \<in> K) \<and> slot_known K slot'"
proof -
  have "my_malloc_loop cfg s sz slot p = Some r \<Longrightarrow>
      wf_config cfg \<longrightarrow> known_inv cfg s K \<longrightarrow> p \<in> K \<union> {0, ALLOCATED_BLOCK_MAGIC cfg} \<longrightarrow>
      slot_known K slot \<longrightarrow>
      (\<forall>slot' b s0. r = Returns (slot', b) s0 \<longrightarrow> s0 = s \<and> (b = 0 \<or> b \<in> K) \<and> slot_known K slot')"
    for r
  proof (induction cfg s sz slot p r rule: my_malloc_loop.raw_induct [rotated 1, consumes 1])
    case (1 loop cfg s sz prevptr block r)
    show ?case
    proof (intro impI allI)
      fix slot' b s0
      assume wf: "wf_config cfg" and inv: "known_inv cfg s K"
        and blk: "block \<in> K \<union> {0, ALLOCATED_BLOCK_MAGIC cfg}"
        and sl: "slot_known K prevptr" and r: "r = Returns (slot', b) s0"
      show "s0 = s \<and> (b = 0 \<or> b \<in> K) \<and> slot_known K slot'"
      proof (cases "block = 0")
        case True
        with 1(2) r sl show ?thesis by simp
      next
        case False
        note nz = this
        show ?thesis
        proof (cases "is_header cfg block")
          case False
          with 1(2) nz r show ?thesis by simp
        next
          case True
          then have bK: "block \<in> K"
            using known_header [OF wf blk] by simp
          show ?thesis
          proof (cases "sz \<le> blk_size s block")
            case True
            with 1(2) nz \<open>is_header cfg block\<close> r sl bK show ?thesis by simp
          next
            case False
            with 1(2) nz \<open>is_header cfg block\<close>
            have "loop cfg s sz (NextOf block) (blk_next s block) = Some r"
              by simp
            from 1(1) [OF this] wf inv known_invD(6) [OF inv bK] bK r show ?thesis
              by auto
          qed
        qed
      qed
    qed
  qed
  with assms show ?thesis
    by blast
qed

lemma my_free_loop_known:
  assumes "my_free_loop cfg s block p = Some (Returns fb s0)"
    and "wf_config cfg" and "known_inv cfg s K"
    and "p \<in> K \<union> {0, ALLOCATED_BLOCK_MAGIC cfg}"
  shows "s0 = s \<and> fb \<in> K"
proof -
  have "my_free_loop cfg s block p = Some r \<Longrightarrow>
      wf_config cfg \<longrightarrow> known_inv cfg s K \<longrightarrow> p \<in> K \<union> {0, ALLOCATED_BLOCK_MAGIC cfg} \<longrightarrow>
      (\<forall>fb s0. r = Returns fb s0 \<longrightarrow> s0 = s \<and> fb \<in> K)"
    for r
  proof (induction cfg s block p r rule: my_free_loop.raw_induct [rotated 1, consumes 1])
    case (1 loop cfg s block freeblock r)
    show ?case
    proof (intro impI allI)
      fix fb s0
      assume wf: "wf_config cfg" and inv: "known_inv cfg s K"
        and blk: "freeblock \<in> K \<union> {0, ALLOCATED_BLOCK_MAGIC cfg}"
        and r: "r = Returns fb s0"
      show "s0 = s \<and> fb \<in> K"
      proof (cases "is_header cfg freeblock")
        case False
        with 1(2) r show ?thesis by simp
      next
        case True
        then have bK: "freeblock \<in> K"
          using known_header [OF wf blk] by simp
        show ?thesis
        proof (cases "blk_next s freeblock < block \<and> blk_next s freeblock \<noteq> 0")
          case False
          with 1(2) True r bK show ?thesis by auto
        next
          case c: True
          with 1(2) True
          have "loop cfg s block (blk_next s freeblock) = Some r"
            by simp
          from 1(1) [OF this] wf inv known_invD(6) [OF inv bK] r show ?thesis
            by auto
        qed
      qed
    qed
  qed
  with assms show ?thesis
    by blast
qed

lemma needed_aligned: "unat (roundUp n + HEADER_SIZE) mod 16 = 0"
proof -
  have r: "unat (roundUp n) = 16 * (unat (n + 0xF) div 16)"
    by (simp only: roundUp_def unat_and_not_15)
  have "unat (roundUp n + 16) = (unat (roundUp n) + 16) mod 2 ^ 64"
    by (simp add: unat_word_ariths)
  also have "\<dots> mod 16 = (unat (roundUp n) + 16) mod 16"
    by (rule mod_mod_cancel) simp
  also have "\<dots> = 0"
    by (simp add: r)
  finally show ?thesis
    by (simp add: HEADER_SIZE_def)
qed

lemma slot_known_ok: "known_inv cfg s K \<Longrightarrow> slot_known K slot \<Longrightarrow> slot_ok cfg slot"
  by (cases slot) (auto dest: known_invD(1))

lemma store_slot_next_known:
  assumes "slot_known K slot" and "v \<in> K'" and "nx k \<in> K' \<union> {0, M}"
  shows "blk_next (store_slot slot v (s\<lparr>blk_next := nx\<rparr>)) k \<in> K' \<union> {0, M}"
  using assms by (cases slot) auto

lemma store_slot_first_known:
  assumes "v \<in> K'" and "firstFreeBlock s \<in> K' \<union> {0, M}"
  shows "firstFreeBlock (store_slot slot v s) \<in> K' \<union> {0, M}"
  using assms by (cases slot) auto

lemma allocate_block_known:
  assumes wf: "wf_config cfg" and inv: "known_inv cfg s K" and bK: "b \<in> K"
    and sl: "slot_known K slot" and al: "unat sz mod 16 = 0"
    and run: "allocate_block cfg slot b sz s = Returns p s'"
  shows "p = b + HEADER_SIZE \<and> (\<exists>K'. K \<subseteq> K' \<and> known_inv cfg s' K')"
proof -
  let ?M = "ALLOCATED_BLOCK_MAGIC cfg"
  let ?E = "unat (heapData cfg) + unat (HEAP_SIZE cfg)"
  note b = known_invD [OF inv bK]
  have lk: "\<not> (lock s \<and> relock_blocks cfg)"
    using run by (auto simp: allocate_block_def pthread_mutex_lock_def)
  have le: "sz \<le> blk_size s b"
    using run lk b(1) by (auto simp: allocate_block_def pthread_mutex_lock_def split: if_splits)
  have so: "slot_ok cfg slot"
    by (rule slot_known_ok [OF inv sl])
  have first: "firstFreeBlock s \<in> K \<union> {0, ?M}" and base: "heapData cfg \<in> K"
    and all: "\<And>k. k \<in> K \<Longrightarrow> block_known cfg K (blk_size s) (blk_next s) k"
    using inv by (auto simp: known_inv_def)
  have E: "?E < 2 ^ 64"
    using wf by (simp add: wf_config_def)
  consider (exact) "blk_size s b = sz" | (zero) "blk_size s b \<noteq> sz" "sz = 0"
    | (split) "blk_size s b \<noteq> sz" "sz \<noteq> 0"
    by blast
  then show ?thesis
  proof cases
    case exact
    from allocate_block_exact [OF lk b(1) so exact] run
    have p: "p = b + HEADER_SIZE" and size': "blk_size s' = blk_size s"
      and next': "blk_next s' = (blk_next (store_slot slot (blk_next s b) s))(b := ?M)"
      and first': "firstFreeBlock s' = firstFreeBlock (store_slot slot (blk_next s b) s)"
      by auto
    have nb: "blk_next s b \<in> K \<union> {0, ?M}"
      by (rule b(6))
    have "blk_next s' k \<in> K \<union> {0, ?M}" if "k \<in> K" for k
      using next' nb known_invD(6) [OF inv that] by (cases slot) auto
    then have "\<And>k. k \<in> K \<Longrightarrow> block_known cfg K (blk_size s') (blk_next s') k"
      using all size' by (auto intro: block_known_next)
    moreover have "firstFreeBlock s' \<in> K \<union> {0, ?M}"
      using first' first nb by (cases slot) auto
    ultimately have "known_inv cfg s' K"
      using base by (simp add: known_inv_def)
    with p show ?thesis
      by blast
  next
    case zero
    have "getNextBlockBySize cfg (s\<lparr>lock := True, blk_size := (blk_size s)(b := 0)\<rparr>) b =
        Returns b (s\<lparr>lock := True, blk_size := (blk_size s)(b := 0)\<rparr>)"
    proof -
      have "unat b < unat (heap_end cfg)"
        using b(2,4) unat_heap_end [OF wf] by simp
      then have "b \<le> heap_end cfg" "b \<noteq> heap_end cfg"
        by (auto simp: word_le_nat_alt)
      then show ?thesis
        using b(1) by (simp add: getNextBlockBySize_def HEADER_SIZE_def)
    qed
    with run lk b(1) le zero so
    have p: "p = b + HEADER_SIZE" and size': "blk_size s' = blk_size s"
      and next': "blk_next s' = blk_next (store_slot slot b (s\<lparr>blk_next := (blk_next s)(b := ?M)\<rparr>))"
      and first': "firstFreeBlock s' = firstFreeBlock (store_slot slot b s)"
      by (cases slot; auto simp: allocate_block_def pthread_mutex_lock_def
          pthread_mutex_unlock_def Let_def)+
    have "blk_next s' k \<in> K \<union> {0, ?M}" if "k \<in> K" for k
      unfolding next' using known_invD(6) [OF inv that] bK
      by (intro store_slot_next_known [OF sl]) auto
    then have "\<And>k. k \<in> K \<Longrightarrow> block_known cfg K (blk_size s') (blk_next s') k"
      using all size' by (auto intro: block_known_next)
    moreover have "firstFreeBlock s' \<in> K \<union> {0, ?M}"
      unfolding first' using bK first by (intro store_slot_first_known) auto
    ultimately have "known_inv cfg s' K"
      using base by (simp add: known_inv_def)
    with p show ?thesis
      by blast
  next
    case split
    let ?c = "b + sz"
    let ?K = "insert ?c K"
    have lt: "unat sz < unat (blk_size s b)"
      using le split(1) by (auto simp: word_le_nat_alt word_unat_eq_iff)
    have "unat sz \<noteq> 0"
      using split(2) by (simp add: unat_eq_0)
    with al have ge: "16 \<le> unat sz"
      by presburger
    from allocate_block_split [OF wf lk b(1) so lt ge al b(3) b(4)] run
    have p: "p = b + HEADER_SIZE"
      and size': "blk_size s' = (blk_size s)(b := sz, ?c := blk_size s b - sz)"
      and next': "blk_next s' = blk_next (store_slot slot ?c
                    (s\<lparr>blk_next := (blk_next s)(?c := blk_next s b, b := ?M)\<rparr>))"
      and first': "firstFreeBlock s' = firstFreeBlock (store_slot slot ?c s)"
      by auto
    have sum: "unat ?c = unat b + unat sz"
      using lt b(4) E by (intro unat_plus64) simp
    then have cb: "?c \<noteq> b"
      using ge by auto
    have diff: "unat (blk_size s b - sz) = unat (blk_size s b) - unat sz"
      using lt by (intro unat_minus64) simp
    have diff16: "16 \<le> unat (blk_size s b) - unat sz"
      using lt al b(3) by presburger
    have hc: "is_header cfg ?c"
      using b(1) sum lt b(4) al diff16 by (auto simp: is_header_def mod_add_eq [symmetric])
    have nxt: "blk_next s' k \<in> ?K \<union> {0, ?M}" if "k \<in> ?K" for k
    proof -
      have "((blk_next s)(?c := blk_next s b, b := ?M)) k \<in> ?K \<union> {0, ?M}"
        using that b(6) known_invD(6) [OF inv, of k] by auto
      then show ?thesis
        unfolding next' by (intro store_slot_next_known [OF sl]) auto
    qed
    have blk: "block_known cfg ?K (blk_size s') (blk_next s') k" if kK: "k \<in> ?K" for k
    proof -
      consider "k = ?c" | "k = b" | "k \<in> K" "k \<noteq> b" "k \<noteq> ?c"
        using kK by blast
      then show ?thesis
      proof cases
        case 1
        have "?c + (blk_size s b - sz) = b + blk_size s b"
          by simp
        moreover have "unat ?c + unat (blk_size s b - sz) = unat b + unat (blk_size s b)"
          using sum diff lt by simp
        ultimately show ?thesis
          using 1 hc size' diff diff16 b(3,4,5) al nxt [OF kK]
          by (auto simp: block_known_def mod_diff_eq [symmetric])
      next
        case 2
        then show ?thesis
          using cb b(1,4) size' ge al sum lt nxt [OF kK]
          by (auto simp: block_known_def)
      next
        case 3
        have "block_known cfg ?K (blk_size s) (blk_next s) k"
          using all [OF 3(1)] by (rule block_known_mono) auto
        then have "block_known cfg ?K (blk_size s') (blk_next s) k"
          using size' 3 by (simp add: block_known_def)
        then show ?thesis
          using nxt [OF kK] by (rule block_known_next)
      qed
    qed
    have "firstFreeBlock s' \<in> ?K \<union> {0, ?M}"
      unfolding first' using first by (intro store_slot_first_known) auto
    then have "known_inv cfg s' ?K"
      using base blk by (simp add: known_inv_def)
    with p show ?thesis
      by blast
  qed
qed

lemma bind_Returns:
  "bind m f = Returns v s' \<Longrightarrow> \<exists>u s1. m = Returns u s1 \<and> f u s1 = Returns v s'"
  by (cases m) auto

lemma if_zero_same: "(if x = 0 then 0 else x) = (x :: 64 word)"
  by simp

lemma merge_blocks_known:
  assumes wf: "wf_config cfg" and inv: "known_inv cfg s K" and bK: "b1 \<in> K"
    and run: "merge_blocks cfg b1 b2 s = Returns u s'"
  shows "known_inv cfg s' K"
proof -
  let ?M = "ALLOCATED_BLOCK_MAGIC cfg"
  let ?E = "unat (heapData cfg) + unat (HEAP_SIZE cfg)"
  note b = known_invD [OF inv bK]
  have lk: "\<not> (lock s \<and> relock_blocks cfg)"
    using run by (auto simp: merge_blocks_def pthread_mutex_lock_def)
  have E: "?E < 2 ^ 64"
    using wf by (simp add: wf_config_def)
  show ?thesis
  proof (cases "b1 + blk_size s b1 = b2")
    case False
    with run lk b(1) have "s' = s\<lparr>lock := True\<rparr>"
      by (auto simp: merge_blocks_def pthread_mutex_lock_def)
    with inv show ?thesis
      by simp
  next
    case True
    with run lk b(1) have h2: "is_header cfg b2"
      and size': "blk_size s' = (blk_size s)(b1 := blk_size s b1 + blk_size s b2)"
      and next': "blk_next s' = (blk_next s)(b1 := blk_next s b2)"
      and first': "firstFreeBlock s' = firstFreeBlock s"
      by (auto simp: merge_blocks_def pthread_mutex_lock_def pthread_mutex_unlock_def
          split: if_splits)
    have sum: "unat b2 = unat b1 + unat (blk_size s b1)"
      using True b(4) E unat_plus64 [of b1 "blk_size s b1"] by auto
    have "unat b2 \<noteq> ?E"
      using h2 by (auto simp: is_header_def)
    with b(5) sum True have b2K: "b2 \<in> K"
      by auto
    note c = known_invD [OF inv b2K]
    have sz: "unat (blk_size s b1 + blk_size s b2) = unat (blk_size s b1) + unat (blk_size s b2)"
      using c(4) sum E by (intro unat_plus64) simp
    have first: "firstFreeBlock s \<in> K \<union> {0, ?M}" and base: "heapData cfg \<in> K"
      and all: "\<And>k. k \<in> K \<Longrightarrow> block_known cfg K (blk_size s) (blk_next s) k"
      using inv by (auto simp: known_inv_def)
    have w: "b1 + (blk_size s b1 + blk_size s b2) = b2 + blk_size s b2"
      using True by (simp add: add.assoc [symmetric])
    have n: "unat b1 + unat (blk_size s b1 + blk_size s b2) = unat b2 + unat (blk_size s b2)"
      using sz sum by simp
    have m16: "unat (blk_size s b1 + blk_size s b2) mod 16 = 0"
      using sz b(3) c(3) by (simp add: mod_add_eq [symmetric])
    have ge16: "16 \<le> unat (blk_size s b1 + blk_size s b2)"
      using sz b(2) by simp
    have b1': "block_known cfg K (blk_size s') (blk_next s') b1"
      unfolding block_known_def size' next' fun_upd_same w n
      using b(1) m16 ge16 c(4,5,6) by blast
    have "block_known cfg K (blk_size s') (blk_next s') k" if kK: "k \<in> K" for k
    proof (cases "k = b1")
      case True
      with b1' show ?thesis
        by simp
    next
      case False
      then show ?thesis
        using all [OF kK] size' next' by (simp add: block_known_def)
    qed
    then show ?thesis
      using base first first' by (simp add: known_inv_def)
  qed
qed

lemma known_inv_next_upd:
  assumes "known_inv cfg s K" and "v \<in> K \<union> {0, ALLOCATED_BLOCK_MAGIC cfg}"
  shows "known_inv cfg (s\<lparr>blk_next := (blk_next s)(k := v)\<rparr>) K"
  using assms by (auto simp: known_inv_def block_known_def)

lemma known_inv_first_upd:
  assumes "known_inv cfg s K" and "v \<in> K \<union> {0, ALLOCATED_BLOCK_MAGIC cfg}"
  shows "known_inv cfg (s\<lparr>firstFreeBlock := v\<rparr>) K"
  using assms by (auto simp: known_inv_def block_known_def)

lemma my_malloc_known:
  assumes wf: "wf_config cfg" and inv: "known_inv cfg s K"
    and run: "my_malloc cfg n s = Some (Returns p s')"
  shows "\<exists>K'. K \<subseteq> K' \<and> known_inv cfg s' K' \<and> (p \<noteq> 0 \<longrightarrow> p - HEADER_SIZE \<in> K')"
proof -
  let ?sz = "roundUp n + HEADER_SIZE"
  let ?s1 = "s\<lparr>lock := True\<rparr>"
  have lk: "\<not> (lock s \<and> relock_blocks cfg)"
    using run by (auto simp: my_malloc_def pthread_mutex_lock_def)
  from run lk obtain slot b s0 where
    loop: "my_malloc_loop cfg ?s1 ?sz Head (firstFreeBlock ?s1) = Some (Returns (slot, b) s0)"
    and rest: "(if b = 0 then Some (Returns 0 ?s1)
                else Some (allocate_block cfg slot b ?sz (pthread_mutex_unlock ?s1))) =
               Some (Returns p s')"
    by (auto simp: my_malloc_def pthread_mutex_lock_def Let_def
        split: option.splits outcome.splits)
  have inv1: "known_inv cfg ?s1 K"
    using inv by simp
  have "firstFreeBlock ?s1 \<in> K \<union> {0, ALLOCATED_BLOCK_MAGIC cfg}"
    using inv by (simp add: known_inv_def)
  from my_malloc_loop_known [OF loop wf inv1 this]
  have b: "b = 0 \<or> b \<in> K" and sl: "slot_known K slot"
    by simp_all
  show ?thesis
  proof (cases "b = 0")
    case True
    with rest have "p = 0" "s' = ?s1"
      by simp_all
    with inv1 show ?thesis
      by auto
  next
    case False
    with b have bK: "b \<in> K"
      by simp
    from False rest have ab: "allocate_block cfg slot b ?sz (s\<lparr>lock := False\<rparr>) = Returns p s'"
      by (simp add: pthread_mutex_unlock_def)
    have "known_inv cfg (s\<lparr>lock := False\<rparr>) K"
      using inv by simp
    from allocate_block_known [OF wf this bK sl needed_aligned ab]
    obtain K' where "p = b + HEADER_SIZE" "K \<subseteq> K'" "known_inv cfg s' K'"
      by blast
    with bK show ?thesis
      by auto
  qed
qed

lemma my_free_known:
  assumes wf: "wf_config cfg" and inv: "known_inv cfg s K"
    and p: "p = 0 \<or> p - HEADER_SIZE \<in> K"
    and run: "my_free cfg p s = Some (Returns u s')"
  shows "known_inv cfg s' K"
proof -
  let ?M = "ALLOCATED_BLOCK_MAGIC cfg"
  let ?s1 = "s\<lparr>lock := True\<rparr>"
  let ?b = "p - HEADER_SIZE"
  have lk: "\<not> (lock s \<and> relock_blocks cfg)"
    using run by (auto simp: my_free_def pthread_mutex_lock_def)
  have inv1: "known_inv cfg ?s1 K"
    using inv by simp
  have first: "firstFreeBlock s \<in> K \<union> {0, ?M}"
    using inv by (simp add: known_inv_def)
  show ?thesis
  proof (cases "p = 0")
    case True
    with run lk have "s' = ?s1"
      by (simp add: my_free_def pthread_mutex_lock_def)
    with inv1 show ?thesis
      by simp
  next
    case False
    with p have bK: "?b \<in> K"
      by simp
    then have hb: "is_header cfg ?b"
      using known_invD(1) [OF inv] by simp
    show ?thesis
    proof (cases "?b < firstFreeBlock s")
      case True
      let ?s3 = "?s1\<lparr>blk_next := (blk_next s)(?b := firstFreeBlock s), firstFreeBlock := ?b\<rparr>"
      have "my_free cfg p s = Some (bind (merge_blocks cfg ?b (firstFreeBlock s) ?s3)
          (\<lambda>_ s4. Returns () (pthread_mutex_unlock s4)))"
        using False True hb
        by (simp add: my_free_def pthread_mutex_lock_free [OF lk] Let_def)
      with run obtain s4 where
        m: "merge_blocks cfg ?b (firstFreeBlock s) ?s3 = Returns () s4"
        and s': "s' = pthread_mutex_unlock s4"
        by (auto dest!: bind_Returns)
      have "known_inv cfg ?s3 K"
        using known_inv_first_upd [OF known_inv_next_upd [OF inv1 first, of ?b], of ?b] bK
        by simp
      from merge_blocks_known [OF wf this bK m] s' show ?thesis
        by (simp add: pthread_mutex_unlock_def)
    next
      case nlt: False
      from run lk False nlt obtain fb s0 where
        loop: "my_free_loop cfg ?s1 ?b (firstFreeBlock ?s1) = Some (Returns fb s0)"
        by (auto simp: my_free_def pthread_mutex_lock_def Let_def
            split: option.splits outcome.splits if_splits)
      from my_free_loop_known [OF loop wf inv1] first have fbK: "fb \<in> K"
        by simp
      let ?s3 = "?s1\<lparr>blk_next := (blk_next s)(?b := blk_next s fb, fb := ?b)\<rparr>"
      have "my_free cfg p s = Some (bind (merge_blocks cfg ?b (blk_next ?s3 ?b) ?s3)
          (\<lambda>_ s4. bind (merge_blocks cfg fb ?b s4)
            (\<lambda>_ s5. Returns () (pthread_mutex_unlock s5))))"
        using False nlt hb loop
        by (simp add: my_free_def pthread_mutex_lock_free [OF lk] Let_def if_zero_same)
      with run obtain s4 s5 where
        m1: "merge_blocks cfg ?b (blk_next ?s3 ?b) ?s3 = Returns () s4"
        and m2: "merge_blocks cfg fb ?b s4 = Returns () s5"
        and s': "s' = pthread_mutex_unlock s5"
        by (auto dest!: bind_Returns)
      have "known_inv cfg (?s1\<lparr>blk_next := (blk_next s)(?b := blk_next s fb)\<rparr>) K"
        using known_inv_next_upd [OF inv1 known_invD(6) [OF inv fbK], of ?b] by simp
      from known_inv_next_upd [OF this, of ?b fb] bK have "known_inv cfg ?s3 K"
        by simp
      from merge_blocks_known [OF wf this bK m1] have "known_inv cfg s4 K" .
      from merge_blocks_known [OF wf this fbK m2] s' show ?thesis
        by (simp add: pthread_mutex_unlock_def)
    qed
  qed
qed

lemma reachable_known:
  assumes "wf_config cfg" and "reachable cfg s live"
  shows "\<exists>K. known_inv cfg s K \<and> (\<forall>p\<in>live. p - HEADER_SIZE \<in> K)"
  using assms(2)
proof (induction rule: reachable.induct)
  case (init s0)
  show ?case
    using known_inv_init [OF assms(1)] by auto
next
  case (malloc s live n p s')
  then obtain K where K: "known_inv cfg s K" "\<forall>p\<in>live. p - HEADER_SIZE \<in> K"
    by blast
  from my_malloc_known [OF assms(1) K(1) malloc.hyps(2)]
  obtain K' where K': "K \<subseteq> K'" "known_inv cfg s' K'" "p \<noteq> 0 \<longrightarrow> p - HEADER_SIZE \<in> K'"
    by blast
  with K(2) have "\<forall>q\<in>(if p = 0 then live else insert p live). q - HEADER_SIZE \<in> K'"
    by auto
  with K'(2) show ?case
    by blast
next
  case (free s live p s')
  then obtain K where K: "known_inv cfg s K" "\<forall>p\<in>live. p - HEADER_SIZE \<in> K"
    by blast
  with free.hyps(2) have "p = 0 \<or> p - HEADER_SIZE \<in> K"
    by simp
  from my_free_known [OF assms(1) K(1) this free.hyps(3)] K(2) show ?case
    by auto
next
  case (free_null s live s')
  then obtain K where K: "known_inv cfg s K" "\<forall>p\<in>live. p - HEADER_SIZE \<in> K"
    by blast
  from my_free_known [OF assms(1) K(1) _ free_null.hyps(2)] K(2) show ?case
    by auto
qed

subsection \<open>From the known headers to the partition\<close>

lemma known_chain:
  assumes wf: "wf_config cfg" and inv: "known_inv cfg s K"
  shows "k \<in> K \<Longrightarrow>
     \<exists>bs. bs \<noteq> [] \<and> blocks_between (blk_size s) (unat k) bs
                        (unat (heapData cfg) + unat (HEAP_SIZE cfg))"
proof (induction "unat (heapData cfg) + unat (HEAP_SIZE cfg) - unat k" arbitrary: k
    rule: less_induct)
  case less
  let ?E = "unat (heapData cfg) + unat (HEAP_SIZE cfg)"
  note k = known_invD [OF inv less.prems]
  show ?case
  proof (cases "unat k + unat (blk_size s k) = ?E")
    case True
    with k(2,3) have "blocks_between (blk_size s) (unat k) [k] ?E"
      by simp
    then show ?thesis
      by blast
  next
    case False
    with k(5) have next_known: "k + blk_size s k \<in> K"
      by simp
    have E: "?E < 2 ^ 64"
      using wf by (simp add: wf_config_def)
    have sum: "unat (k + blk_size s k) = unat k + unat (blk_size s k)"
      using k(4) E by (intro unat_plus64) simp
    have "?E - unat (k + blk_size s k) < ?E - unat k"
      using sum k(2,4) False by simp
    from less.hyps [OF this next_known] obtain bs where
      "blocks_between (blk_size s) (unat (k + blk_size s k)) bs ?E"
      by blast
    then have "blocks_between (blk_size s) (unat k) (k # bs) ?E"
      using sum k(2,3) by simp
    then show ?thesis
      by blast
  qed
qed

lemma dump_all_loop_null: "dump_all_loop cfg s 0 out = Some (Returns out s)"
  by (subst dump_all_loop.simps) simp

lemma dump_all_loop_blocks:
  assumes wf: "wf_config cfg"
  shows "blocks_between (blk_size s) (unat k) bs (unat (heapData cfg) + unat (HEAP_SIZE cfg)) \<Longrightarrow>
     bs \<noteq> [] \<Longrightarrow> unat (heapData cfg) \<le> unat k \<Longrightarrow> unat k mod 16 = 0 \<Longrightarrow>
     dump_all_loop cfg s k out =
       Some (Returns (out @ map (\<lambda>b. (b - heapData cfg, blk_size s b,
                                      blk_next s b = ALLOCATED_BLOCK_MAGIC cfg)) bs) s)"
proof (induction bs arbitrary: k out)
  case Nil
  then show ?case by simp
next
  case (Cons b bs)
  let ?E = "unat (heapData cfg) + unat (HEAP_SIZE cfg)"
  let ?line = "\<lambda>b. (b - heapData cfg, blk_size s b, blk_next s b = ALLOCATED_BLOCK_MAGIC cfg)"
  from Cons.prems have bk: "b = k"
    by (simp add: word_unat_eq_iff)
  with Cons.prems have ge: "16 \<le> unat (blk_size s k)"
    and al: "unat (blk_size s k) mod 16 = 0"
    and rest: "blocks_between (blk_size s) (unat k + unat (blk_size s k)) bs ?E"
    by auto
  have le: "unat k + unat (blk_size s k) \<le> ?E"
    by (rule blocks_between_le [OF rest])
  have E: "?E < 2 ^ 64"
    using wf by (simp add: wf_config_def)
  have hk: "is_header cfg k"
    using Cons.prems(3,4) le ge by (simp add: is_header_def)
  then have k0: "k \<noteq> 0"
    using not_header_null [OF wf] by auto
  have sum: "unat (k + blk_size s k) = unat k + unat (blk_size s k)"
    using le E by (intro unat_plus64) simp
  show ?case
  proof (cases bs)
    case Nil
    with rest have "unat (k + blk_size s k) = unat (heap_end cfg)"
      using sum unat_heap_end [OF wf] by simp
    then have "k + blk_size s k = heap_end cfg"
      by (simp add: word_unat_eq_iff)
    then have "getNextBlockBySize cfg s k = Returns 0 s"
      using hk by (simp add: getNextBlockBySize_def HEADER_SIZE_def)
    then show ?thesis
      using k0 Nil bk by (subst dump_all_loop.simps) (simp add: dump_all_loop_null)
  next
    case (Cons c cs)
    with rest have c: "unat c = unat k + unat (blk_size s k)" and cge: "16 \<le> unat (blk_size s c)"
      by auto
    have "unat c + unat (blk_size s c) \<le> ?E"
      using blocks_between_mem [OF rest, of c] Cons by simp
    with c cge have lt: "unat k + unat (blk_size s k) < ?E"
      by simp
    have ck: "c = k + blk_size s k"
      using c sum by (simp add: word_unat_eq_iff)
    have nxt: "getNextBlockBySize cfg s k = Returns c s"
      using getNextBlockBySize_inside [OF wf hk ge lt] ck by simp
    have "dump_all_loop cfg s c (out @ [?line k]) =
        Some (Returns ((out @ [?line k]) @ map ?line bs) s)"
    proof (rule Cons.IH)
      show "blocks_between (blk_size s) (unat c) bs ?E"
        using rest c by simp
      show "bs \<noteq> []"
        using Cons by simp
      show "unat (heapData cfg) \<le> unat c"
        using c Cons.prems(3) by simp
      show "unat c mod 16 = 0"
        using c Cons.prems(4) al by (simp add: mod_add_eq [symmetric])
    qed
    then show ?thesis
      using k0 nxt bk by (subst dump_all_loop.simps) simp
  qed
qed

lemma covers_blocks:
  "blocks_between sz a bs e \<Longrightarrow> unat base \<le> a \<Longrightarrow>
     covers (a - unat base) (map (\<lambda>b. (b - base, sz b, u b)) bs) (e - unat base)"
proof (induction bs arbitrary: a)
  case Nil
  then show ?case by simp
next
  case (Cons b bs)
  then have "unat (b - base) = a - unat base"
    by (simp add: unat_minus64)
  moreover have "a + unat (sz b) - unat base = a - unat base + unat (sz b)"
    using Cons.prems by simp
  ultimately show ?case
    using Cons.prems Cons.IH [of "a + unat (sz b)"] by simp
qed

lemma sizes_blocks:
  "blocks_between sz a bs e \<Longrightarrow>
     sum_list (map (\<lambda>(off, size, used). unat size) (map (\<lambda>b. (b - base, sz b, u b)) bs)) = e - a"
proof (induction bs arbitrary: a)
  case Nil
  then show ?case by simp
next
  case (Cons b bs)
  then have "sum_list (map (\<lambda>(off, size, used). unat size)
      (map (\<lambda>b. (b - base, sz b, u b)) bs)) = e - (a + unat (sz b))"
    by simp
  moreover have "a + unat (sz b) \<le> e"
    using Cons.prems blocks_between_le [of sz "a + unat (sz b)" bs e] by simp
  ultimately show ?case
    by simp
qed

lemma my_malloc_fresh:
  "my_malloc example_config 0 (initAllocator example_config blank) = Some (Returns 4112 one_alloc)"
  by (simp add: my_malloc_def example_simps loop_simps roundUp_def allocate_block_def
      getNextBlockBySize_def one_alloc_def fun_eq_iff)

lemma reachable_one_alloc: "reachable example_config one_alloc {4112}"
  using reachable.malloc [OF reachable.init my_malloc_fresh] by simp

subsection \<open>Freeing a block\<close>

lemma no_touching_cong:
  "(\<And>a. a \<in> set (butlast as) \<Longrightarrow> sz' a = sz a) \<Longrightarrow> no_touching sz' as = no_touching sz as"
proof (induction sz as rule: no_touching.induct)
  case (1 sz a b bs)
  then show ?case by simp
qed simp_all

lemma no_touching_append:
  "no_touching sz (l @ x # y # r) \<longleftrightarrow> no_touching sz (l @ [x]) \<and> no_touching sz (x # y # r)"
proof (induction l)
  case Nil
  then show ?case by simp
next
  case (Cons a l)
  then show ?case
    by (cases l) auto
qed

lemma no_touching_prefix: "no_touching sz (l @ r) \<Longrightarrow> no_touching sz l \<and> no_touching sz r"
proof (induction l)
  case Nil
  then show ?case by simp
next
  case (Cons a l)
  show ?case
  proof (cases l)
    case Nil
    with Cons.prems show ?thesis
      by (cases r) auto
  next
    case (Cons a' l')
    with Cons.prems Cons.IH show ?thesis
      by auto
  qed
qed

lemma no_touching_join:
  "no_touching sz (l @ [x]) \<Longrightarrow> no_touching sz (x # r) \<Longrightarrow> no_touching sz (l @ x # r)"
  by (cases r) (simp_all add: no_touching_append)

lemma no_touching_tl: "no_touching sz (a # as) \<Longrightarrow> no_touching sz as"
  by (cases as) auto

lemma next_path_mid:
  "next_path nx p (l @ x # r) q \<Longrightarrow> nx x = (if r = [] then q else hd r)"
  by (cases r) (auto simp: next_path_append)

lemma is_free_lock [simp]: "is_free cfg (s\<lparr>lock := l\<rparr>) = is_free cfg s"
  by (simp add: is_free_def fun_eq_iff)

lemma heap_ok_lock [simp]: "heap_ok cfg (s\<lparr>lock := l\<rparr>) bs = heap_ok cfg s bs"
  by (simp add: heap_ok_def)

lemma blocks_between_split:
  assumes "blocks_between sz a (l @ x # r) e"
  shows "blocks_between sz a l (unat x)" and "16 \<le> unat (sz x)" and "unat (sz x) mod 16 = 0"
    and "blocks_between sz (unat x + unat (sz x)) r e"
proof -
  from assms obtain m where l: "blocks_between sz a l m" and r: "blocks_between sz m (x # r) e"
    unfolding blocks_between_append by blast
  from r have "m = unat x"
    by simp
  with l r show "blocks_between sz a l (unat x)" "16 \<le> unat (sz x)" "unat (sz x) mod 16 = 0"
    "blocks_between sz (unat x + unat (sz x)) r e"
    by auto
qed

lemma blocks_between_join:
  assumes "blocks_between sz a l (unat x)" and "16 \<le> unat (sz x)" and "unat (sz x) mod 16 = 0"
    and "blocks_between sz (unat x + unat (sz x)) r e"
  shows "blocks_between sz a (l @ x # r) e"
  unfolding blocks_between_append using assms by auto

lemma merge_step:
  assumes wf: "wf_config cfg" and ok: "heap_ok cfg s bs"
    and fs: "filter (is_free cfg s) bs = fl @ x # fr"
    and nt: "no_touching (blk_size s) fr"
    and run: "merge_blocks cfg x (blk_next s x) s = Returns u s'"
  shows "\<exists>bs' fr'. heap_ok cfg s' bs' \<and> filter (is_free cfg s') bs' = fl @ x # fr' \<and>
           no_touching (blk_size s') (x # fr') \<and> set bs' \<subseteq> set bs \<and>
           firstFreeBlock s' = firstFreeBlock s \<and>
           (\<forall>a. a \<noteq> x \<longrightarrow> blk_size s' a = blk_size s a) \<and>
           (\<forall>a. a \<noteq> x \<longrightarrow> blk_next s' a = blk_next s a) \<and>
           unat (blk_size s x) \<le> unat (blk_size s' x) \<and>
           (x + blk_size s x = blk_next s x \<longrightarrow>
              unat (blk_size s' x) = unat (blk_size s x) + unat (blk_size s (blk_next s x))) \<and>
           (if x + blk_size s x = blk_next s x then fr = blk_next s x # fr' else fr' = fr)"
proof -
  let ?E = "unat (heapData cfg) + unat (HEAP_SIZE cfg)"
  let ?F = "is_free cfg s"
  let ?y = "blk_next s x"
  have xfs: "x \<in> set (filter ?F bs)"
    using fs by simp
  then have xbs: "x \<in> set bs" and xfree: "?F x"
    by simp_all
  note xb = heap_ok_block [OF wf ok xbs]
  have lk: "\<not> (lock s \<and> relock_blocks cfg)"
    using run by (auto simp: merge_blocks_def pthread_mutex_lock_def)
  have path: "next_path (blk_next s) (firstFreeBlock s) (fl @ x # fr) 0"
    using ok fs by (simp add: heap_ok_def)
  have dfs: "distinct (fl @ x # fr)"
    using heap_ok_free_distinct [OF ok] fs by simp
  show ?thesis
  proof (cases "x + blk_size s x = ?y")
    case False
    with run lk xb(1) have s': "s' = s\<lparr>lock := True\<rparr>"
      by (auto simp: merge_blocks_def pthread_mutex_lock_def)
    have "no_touching (blk_size s) (x # fr)"
    proof (cases fr)
      case Nil
      then show ?thesis by simp
    next
      case (Cons f fr')
      with next_path_mid [OF path] have "?y = f"
        by simp
      with False nt Cons show ?thesis
        by simp
    qed
    with s' ok fs False show ?thesis
      by - (rule exI [of _ bs], rule exI [of _ fr], simp)
  next
    case True
    with run lk xb(1) have hy: "is_header cfg ?y"
      and size': "blk_size s' = (blk_size s)(x := blk_size s x + blk_size s ?y)"
      and next': "blk_next s' = (blk_next s)(x := blk_next s ?y)"
      and first': "firstFreeBlock s' = firstFreeBlock s"
      by (auto simp: merge_blocks_def pthread_mutex_lock_def pthread_mutex_unlock_def
          split: if_splits)
    have y0: "?y \<noteq> 0"
      using hy not_header_null [OF wf] by auto
    from next_path_mid [OF path] y0 obtain fr' where fr: "fr = ?y # fr'"
      by (cases fr) auto
    then have yfs: "?y \<in> set (filter ?F bs)"
      using fs by simp
    then have ybs: "?y \<in> set bs" and yfree: "?F ?y"
      by simp_all
    note yb = heap_ok_block [OF wf ok ybs]
    have sumx: "unat ?y = unat x + unat (blk_size s x)"
      using True heap_ok_nowrap [OF wf ok xbs] unat_plus64 [of x "blk_size s x"] by simp
    have xy: "x \<noteq> ?y"
      using sumx xb(2) by auto
    from split_list [OF xbs] obtain l r where bs: "bs = l @ x # r"
      by blast
    have bb: "blocks_between (blk_size s) (unat (heapData cfg)) (l @ x # r) ?E"
      using ok bs by (simp add: heap_ok_def)
    note sp = blocks_between_split [OF bb]
    have "r \<noteq> []"
    proof
      assume "r = []"
      with sp(4) sumx have "unat ?y = ?E"
        by simp
      with hy show False
        by (simp add: is_header_def)
    qed
    then obtain y' r' where r: "r = y' # r'"
      by (cases r) auto
    with sp(4) sumx have "unat y' = unat ?y"
      by simp
    then have y': "y' = ?y"
      by (simp add: word_unat_eq_iff)
    have rest: "blocks_between (blk_size s) (unat ?y + unat (blk_size s ?y)) r' ?E"
      using sp(4) r y' sumx by simp
    have dbs: "distinct (l @ x # ?y # r')"
      using heap_ok_distinct [OF ok] bs r y' by simp
    let ?bs = "l @ x # r'"
    have sumsz: "unat (blk_size s x + blk_size s ?y) = unat (blk_size s x) + unat (blk_size s ?y)"
      using heap_ok_nowrap [OF wf ok ybs] sumx by (intro unat_plus64) simp
    have bb': "blocks_between (blk_size s') (unat (heapData cfg)) ?bs ?E"
    proof (rule blocks_between_join)
      have "blocks_between (blk_size s') (unat (heapData cfg)) l (unat x) =
          blocks_between (blk_size s) (unat (heapData cfg)) l (unat x)"
        by (rule blocks_between_cong) (use dbs size' in auto)
      with sp(1) show "blocks_between (blk_size s') (unat (heapData cfg)) l (unat x)"
        by simp
      show "16 \<le> unat (blk_size s' x)"
        using size' sumsz xb(2) by simp
      show "unat (blk_size s' x) mod 16 = 0"
        using size' sumsz xb(3) yb(3) by (simp add: mod_add_eq [symmetric])
      have "blocks_between (blk_size s') (unat x + unat (blk_size s' x)) r' ?E =
          blocks_between (blk_size s) (unat x + unat (blk_size s' x)) r' ?E"
        by (rule blocks_between_cong) (use dbs size' in auto)
      moreover have "unat x + unat (blk_size s' x) = unat ?y + unat (blk_size s ?y)"
        using size' sumsz sumx by simp
      ultimately show "blocks_between (blk_size s') (unat x + unat (blk_size s' x)) r' ?E"
        using rest by simp
    qed
    have free': "is_free cfg s' = ?F"
      using next' xfree yfree by (auto simp: is_free_def fun_eq_iff)
    have eq: "filter ?F l @ x # (?y # filter ?F r') = fl @ x # (?y # fr')"
      using fs fr bs r y' xfree yfree by simp
    have "x \<notin> set (filter ?F l)" "x \<notin> set (?y # filter ?F r')"
      using dbs by auto
    from append_Cons_eq_iff [OF this, THEN iffD1, OF eq]
    have fl: "filter ?F l = fl" and fr': "filter ?F r' = fr'"
      by simp_all
    have filt: "filter (is_free cfg s') ?bs = fl @ x # fr'"
      using free' fl fr' xfree by simp
    from path fr have p1: "next_path (blk_next s) (firstFreeBlock s) fl x" and x0: "x \<noteq> 0"
      and p2: "next_path (blk_next s) (blk_next s ?y) fr' 0"
      by (auto simp: next_path_append)
    have "next_path (blk_next s') (firstFreeBlock s) fl x =
        next_path (blk_next s) (firstFreeBlock s) fl x"
      by (rule next_path_cong) (use dfs next' in auto)
    moreover have "next_path (blk_next s') (blk_next s ?y) fr' 0 =
        next_path (blk_next s) (blk_next s ?y) fr' 0"
      by (rule next_path_cong) (use dfs fr next' in auto)
    ultimately have path': "next_path (blk_next s') (firstFreeBlock s') (fl @ x # fr') 0"
      using p1 p2 x0 first' next' by (simp add: next_path_append)
    have ok': "heap_ok cfg s' ?bs"
      using bb' path' filt by (simp add: heap_ok_def)
    have nt_fr': "no_touching (blk_size s') fr' = no_touching (blk_size s) fr'"
      by (rule no_touching_cong) (use dfs fr size' in \<open>auto dest: in_set_butlastD\<close>)
    have nt': "no_touching (blk_size s') (x # fr')"
    proof (cases fr')
      case Nil
      then show ?thesis by simp
    next
      case (Cons f2 fr'')
      have "x + (blk_size s x + blk_size s ?y) = x + blk_size s x + blk_size s ?y"
        by (simp add: add.assoc)
      then have e: "x + blk_size s' x = ?y + blk_size s ?y"
        unfolding size' using True by simp
      have "?y + blk_size s ?y \<noteq> f2"
        using nt fr Cons by simp
      with e have "x + blk_size s' x \<noteq> f2"
        by simp
      moreover have "no_touching (blk_size s) fr'"
        using nt fr by (auto dest: no_touching_tl)
      ultimately show ?thesis
        using Cons nt_fr' by simp
    qed
    have "set ?bs \<subseteq> set bs"
      using bs r by auto
    with ok' filt nt' first' size' next' sumsz True fr show ?thesis
      by - (rule exI [of _ ?bs], rule exI [of _ fr'], simp)
  qed
qed

lemma heap_ok_sorted:
  assumes "heap_ok cfg s bs"
  shows "sorted_wrt (<) bs"
proof -
  have bb: "blocks_between (blk_size s) (unat (heapData cfg)) bs
      (unat (heapData cfg) + unat (HEAP_SIZE cfg))"
    using assms by (simp add: heap_ok_def)
  have "sorted_wrt (\<lambda>x y. unat x + unat (blk_size s x) \<le> unat y) bs"
    by (rule blocks_between_sorted [OF bb])
  moreover have "x < y"
    if "x \<in> set bs" "unat x + unat (blk_size s x) \<le> unat y" for x y
    using that blocks_between_mem [OF bb that(1)] by (simp add: word_less_nat_alt)
  ultimately show ?thesis
    by (rule sorted_wrt_mono_rel [rotated]) auto
qed

lemma my_free_loop_path:
  assumes "next_path (blk_next s) p (us @ [fb]) q"
    and "\<forall>u\<in>set (us @ [fb]). is_header cfg u"
    and "\<forall>u\<in>set (tl (us @ [fb])). u < b"
    and "\<not> (q < b \<and> q \<noteq> 0)"
  shows "my_free_loop cfg s b p = Some (Returns fb s)"
  using assms
proof (induction us arbitrary: p)
  case Nil
  then show ?case
    by (auto intro: my_free_loop_stop)
next
  case (Cons u us)
  from Cons.prems(1) have p: "p = u" and rest: "next_path (blk_next s) (blk_next s u) (us @ [fb]) q"
    by auto
  from rest have nu: "blk_next s u = hd (us @ [fb])" and "hd (us @ [fb]) \<noteq> 0"
    by (cases us; auto)+
  moreover have "hd (us @ [fb]) < b"
    using Cons.prems(3) by (cases us) auto
  ultimately have "my_free_loop cfg s b p = my_free_loop cfg s b (blk_next s u)"
    unfolding p by (intro my_free_loop_step) (use Cons.prems(2) in auto)
  also have "\<dots> = Some (Returns fb s)"
  proof (rule Cons.IH [OF rest])
    show "\<forall>u\<in>set (us @ [fb]). is_header cfg u"
      using Cons.prems(2) by simp
    show "\<forall>u\<in>set (tl (us @ [fb])). u < b"
      using Cons.prems(3) by (cases us) auto
    show "\<not> (q < b \<and> q \<noteq> 0)"
      by (rule Cons.prems(4))
  qed
  finally show ?case .
qed

lemma header_not_magic:
  "wf_config cfg \<Longrightarrow> is_header cfg p \<Longrightarrow> p \<noteq> ALLOCATED_BLOCK_MAGIC cfg"
  by (auto simp: wf_config_def)

lemma insert_head_ok:
  assumes wf: "wf_config cfg" and ok: "heap_ok cfg s bs"
    and bs: "bs = pre @ b # post" and used: "\<not> is_free cfg s b"
    and pre: "filter (is_free cfg s) pre = []" and ne: "filter (is_free cfg s) post \<noteq> []"
  shows "heap_ok cfg (s\<lparr>lock := True, blk_next := (blk_next s)(b := firstFreeBlock s),
                        firstFreeBlock := b\<rparr>) bs"
    and "filter (is_free cfg (s\<lparr>lock := True, blk_next := (blk_next s)(b := firstFreeBlock s),
                        firstFreeBlock := b\<rparr>)) bs = [] @ b # filter (is_free cfg s) bs"
proof -
  let ?F = "is_free cfg s"
  let ?s3 = "s\<lparr>lock := True, blk_next := (blk_next s)(b := firstFreeBlock s), firstFreeBlock := b\<rparr>"
  have fs: "filter ?F bs = filter ?F post"
    using bs used pre by simp
  have path: "next_path (blk_next s) (firstFreeBlock s) (filter ?F post) 0"
    using ok fs by (simp add: heap_ok_def)
  with ne have first: "firstFreeBlock s \<in> set (filter ?F post)"
    by (cases "filter ?F post") auto
  then have "firstFreeBlock s \<in> set bs"
    using bs by simp
  then have fM: "firstFreeBlock s \<noteq> ALLOCATED_BLOCK_MAGIC cfg"
    using heap_ok_block(1) [OF wf ok] header_not_magic [OF wf] by blast
  have dist: "distinct (pre @ b # post)"
    using heap_ok_distinct [OF ok] bs by simp
  have b0: "b \<noteq> 0"
    using heap_ok_block(5) [OF wf ok, of b] bs by simp
  have F3: "is_free cfg ?s3 a = (if a = b then True else ?F a)" for a
    using fM by (simp add: is_free_def)
  have "filter (is_free cfg ?s3) pre = filter ?F pre"
    by (rule filter_cong) (use dist F3 in auto)
  moreover have "filter (is_free cfg ?s3) post = filter ?F post"
    by (rule filter_cong) (use dist F3 in auto)
  ultimately show filt: "filter (is_free cfg ?s3) bs = [] @ b # filter ?F bs"
    using bs pre used F3 by simp
  have "next_path (blk_next ?s3) (firstFreeBlock s) (filter ?F post) 0 =
      next_path (blk_next s) (firstFreeBlock s) (filter ?F post) 0"
    by (rule next_path_cong) (use dist in auto)
  with path have "next_path (blk_next ?s3) (firstFreeBlock ?s3) (b # filter ?F post) 0"
    using b0 by simp
  then show "heap_ok cfg ?s3 bs"
    using ok filt fs by (simp add: heap_ok_def)
qed

lemma insert_after_ok:
  assumes wf: "wf_config cfg" and ok: "heap_ok cfg s bs"
    and bs: "bs = pre @ b # post" and used: "\<not> is_free cfg s b"
    and pre: "filter (is_free cfg s) pre = us @ [fb]"
  shows "heap_ok cfg (s\<lparr>lock := True,
                        blk_next := (blk_next s)(b := blk_next s fb, fb := b)\<rparr>) bs"
    and "filter (is_free cfg (s\<lparr>lock := True,
                        blk_next := (blk_next s)(b := blk_next s fb, fb := b)\<rparr>)) bs =
           us @ fb # b # filter (is_free cfg s) post"
proof -
  let ?F = "is_free cfg s"
  let ?nx = "(blk_next s)(b := blk_next s fb, fb := b)"
  let ?s3 = "s\<lparr>lock := True, blk_next := ?nx\<rparr>"
  let ?fpost = "filter ?F post"
  have fs: "filter ?F bs = us @ fb # ?fpost"
    using bs used pre by simp
  have path: "next_path (blk_next s) (firstFreeBlock s) (us @ fb # ?fpost) 0"
    using ok fs by (simp add: heap_ok_def)
  have dist: "distinct (pre @ b # post)"
    using heap_ok_distinct [OF ok] bs by simp
  have dfs: "distinct (us @ fb # ?fpost)"
    using heap_ok_free_distinct [OF ok] fs by simp
  have "fb \<in> set (filter ?F pre)"
    using pre by simp
  then have fb_pre: "fb \<in> set pre" and fb_free: "?F fb"
    by simp_all
  then have fb_b: "fb \<noteq> b" and fb_post: "fb \<notin> set post"
    using dist by auto
  have "set us \<subseteq> set (filter ?F pre)"
    unfolding pre by auto
  then have "set us \<subseteq> set pre"
    by auto
  then have b_us: "b \<notin> set us" and b_fpost: "b \<notin> set ?fpost"
    using dist by auto
  have b0: "b \<noteq> 0" and hb: "is_header cfg b"
    using heap_ok_block [OF wf ok, of b] bs by simp_all
  have bM: "b \<noteq> ALLOCATED_BLOCK_MAGIC cfg"
    by (rule header_not_magic [OF wf hb])
  have F3: "is_free cfg ?s3 a = (if a = b then True else ?F a)" for a
    using fb_free fb_b bM by (auto simp: is_free_def)
  have "filter (is_free cfg ?s3) pre = filter ?F pre"
    by (rule filter_cong) (use dist F3 in auto)
  moreover have "filter (is_free cfg ?s3) post = filter ?F post"
    by (rule filter_cong) (use dist F3 in auto)
  ultimately show filt: "filter (is_free cfg ?s3) bs = us @ fb # b # ?fpost"
    using bs pre F3 by simp
  from path obtain m where p1: "next_path (blk_next s) (firstFreeBlock s) (us @ [fb]) m"
    and p2: "next_path (blk_next s) m ?fpost 0"
    using next_path_append [of "blk_next s" "firstFreeBlock s" "us @ [fb]" ?fpost 0] by auto
  from p1 have m: "m = blk_next s fb"
    by (simp add: next_path_snoc)
  have "next_path ?nx (firstFreeBlock s) (us @ [fb]) b"
  proof (rule next_path_retarget [OF p1])
    show "us @ [fb] \<noteq> []"
      by simp
    show "distinct (us @ [fb])"
      using dfs by simp
    show "\<forall>a\<in>set (butlast (us @ [fb])). ?nx a = blk_next s a"
      using b_us dfs by auto
    show "?nx (last (us @ [fb])) = b"
      by simp
  qed
  moreover have "next_path ?nx (blk_next s fb) ?fpost 0 = next_path (blk_next s) (blk_next s fb) ?fpost 0"
    by (rule next_path_cong) (use b_fpost dfs in auto)
  ultimately have "next_path ?nx (firstFreeBlock s) ((us @ [fb]) @ b # ?fpost) 0"
    unfolding next_path_append [of _ _ "us @ [fb]"] using p2 m b0 fb_b by auto
  then show "heap_ok cfg ?s3 bs"
    using ok filt by (simp add: heap_ok_def)
qed

lemma heap_inv_unlock:
  "heap_ok cfg s bs \<Longrightarrow> no_touching (blk_size s) (filter (is_free cfg s) bs) \<Longrightarrow>
     heap_inv cfg (pthread_mutex_unlock s) bs"
  by (simp add: heap_inv_def pthread_mutex_unlock_def)

lemma heap_inv_two_free: "heap_inv example_config two_free [4096, 4112, 4128]"
  by (simp add: heap_inv_def heap_ok_def example_config_def two_free_def is_free_def)

lemma my_free_two_free:
  "my_free example_config (4112 + HEADER_SIZE) two_free = Some (Returns () all_merged)"
  by (simp add: my_free_def two_free_def all_merged_def example_simps loop_simps
      merge_blocks_def fun_eq_iff)

lemma my_free_block_invariants:
  assumes wf: "wf_config cfg" and inv: "heap_inv cfg s bs"
    and bbs: "b \<in> set bs" and used: "\<not> is_free cfg s b"
    and run: "my_free cfg (b + HEADER_SIZE) s = Some (Returns u s')"
  shows "\<exists>bs'. heap_inv cfg s' bs' \<and> set bs' \<subseteq> set bs \<and>
           sorted_wrt (<) (filter (is_free cfg s') bs') \<and>
           (\<exists>f\<in>set (filter (is_free cfg s') bs').
              unat f \<le> unat b \<and>
              unat b + unat (blk_size s b) \<le> unat f + unat (blk_size s' f))"
proof -
  let ?F = "is_free cfg s"
  let ?s1 = "s\<lparr>lock := True\<rparr>"
  have ok: "heap_ok cfg s bs" and nt: "no_touching (blk_size s) (filter ?F bs)"
    using inv by (simp_all add: heap_inv_def)
  note bb = heap_ok_block [OF wf ok bbs]
  have lk: "\<not> (lock s \<and> relock_blocks cfg)"
    using run by (auto simp: my_free_def pthread_mutex_lock_def)
  have "unat (b + 16) = unat b + 16"
    using bb(2) heap_ok_nowrap [OF wf ok bbs] by (subst unat_plus64) simp_all
  then have a0: "b + HEADER_SIZE \<noteq> 0"
    by (auto simp: HEADER_SIZE_def)
  have ab: "b + HEADER_SIZE - HEADER_SIZE = b"
    by simp
  from split_list [OF bbs] obtain pre post where bs: "bs = pre @ b # post"
    by blast
  let ?fpre = "filter ?F pre"
  let ?fpost = "filter ?F post"
  have fs: "filter ?F bs = ?fpre @ ?fpost"
    using bs used by simp
  have path: "next_path (blk_next s) (firstFreeBlock s) (?fpre @ ?fpost) 0"
    using ok fs by (simp add: heap_ok_def)
  have srt: "sorted_wrt (<) (pre @ b # post)"
    using heap_ok_sorted [OF ok] bs by simp
  then have pre_lt: "\<And>x. x \<in> set pre \<Longrightarrow> x < b" and post_gt: "\<And>y. y \<in> set post \<Longrightarrow> b < y"
    by (auto simp: sorted_wrt_append)
  have hdr: "\<And>x. x \<in> set bs \<Longrightarrow> is_header cfg x"
    by (rule heap_ok_block(1) [OF wf ok])
  have final: "\<exists>bs'. heap_inv cfg s' bs' \<and> set bs' \<subseteq> set bs \<and>
           sorted_wrt (<) (filter (is_free cfg s') bs') \<and>
           (\<exists>f\<in>set (filter (is_free cfg s') bs').
              unat f \<le> unat b \<and>
              unat b + unat (blk_size s b) \<le> unat f + unat (blk_size s' f))"
    if ok5: "heap_ok cfg s5 bs5" and nt5: "no_touching (blk_size s5) (filter (is_free cfg s5) bs5)"
      and sub: "set bs5 \<subseteq> set bs" and s': "s' = pthread_mutex_unlock s5"
      and f: "f \<in> set (filter (is_free cfg s5) bs5)" "unat f \<le> unat b"
         "unat b + unat (blk_size s b) \<le> unat f + unat (blk_size s5 f)"
    for s5 bs5 f
  proof -
    have "heap_inv cfg s' bs5"
      unfolding s' by (rule heap_inv_unlock [OF ok5 nt5])
    moreover have "sorted_wrt (<) (filter (is_free cfg s') bs5)"
      using heap_ok_sorted [OF ok5] by (rule sorted_wrt_filter)
    moreover have "is_free cfg s' = is_free cfg s5" "blk_size s' = blk_size s5"
      unfolding s' by (simp_all add: pthread_mutex_unlock_def is_free_def fun_eq_iff)
    ultimately show ?thesis
      using sub f by auto
  qed
  show ?thesis
  proof (cases "b < firstFreeBlock s")
    case True
    let ?s3 = "s\<lparr>lock := True, blk_next := (blk_next s)(b := firstFreeBlock s),
                 firstFreeBlock := b\<rparr>"
    have ne: "?fpre @ ?fpost \<noteq> []"
    proof
      assume "?fpre @ ?fpost = []"
      with path have "firstFreeBlock s = 0"
        by simp
      with True show False
        by simp
    qed
    with path have first: "firstFreeBlock s = hd (?fpre @ ?fpost)"
      by (rule next_path_hd)
    have pre_empty: "?fpre = []"
    proof (rule ccontr)
      assume "?fpre \<noteq> []"
      then have "hd (?fpre @ ?fpost) = hd ?fpre" "hd ?fpre \<in> set ?fpre"
        by (simp_all del: set_filter)
      then have "firstFreeBlock s \<in> set pre"
        using first by auto
      from pre_lt [OF this] True show False
        by simp
    qed
    with ne have post_ne: "?fpost \<noteq> []"
      by simp
    note ins = insert_head_ok [OF wf ok bs used pre_empty post_ne]
    have "my_free cfg (b + HEADER_SIZE) s =
        Some (bind (merge_blocks cfg b (firstFreeBlock s) ?s3)
          (\<lambda>_ s4. Returns () (pthread_mutex_unlock s4)))"
      using a0 True bb(1)
      by (simp add: my_free_def pthread_mutex_lock_free [OF lk] Let_def)
    with run obtain s4 where
      m: "merge_blocks cfg b (blk_next ?s3 b) ?s3 = Returns () s4"
      and s': "s' = pthread_mutex_unlock s4"
      by (auto dest!: bind_Returns)
    have nt3: "no_touching (blk_size ?s3) (filter ?F bs)"
      using nt by simp
    from merge_step [OF wf ins(1) ins(2) nt3 m] obtain bs4 fr4 where
      ok4: "heap_ok cfg s4 bs4" and
      f4: "filter (is_free cfg s4) bs4 = [] @ b # fr4" and
      nt4: "no_touching (blk_size s4) (b # fr4)" and
      sub4: "set bs4 \<subseteq> set bs" and
      sz4: "unat (blk_size ?s3 b) \<le> unat (blk_size s4 b)"
      by blast
    show ?thesis
    proof (rule final [OF ok4 _ sub4 s', of b])
      show "no_touching (blk_size s4) (filter (is_free cfg s4) bs4)"
        using nt4 f4 by simp
      show "b \<in> set (filter (is_free cfg s4) bs4)"
        using f4 by simp
      show "unat b \<le> unat b"
        by simp
      show "unat b + unat (blk_size s b) \<le> unat b + unat (blk_size s4 b)"
        using sz4 by simp
    qed
  next
    case False
    have ne: "?fpre @ ?fpost \<noteq> []"
    proof
      assume "?fpre @ ?fpost = []"
      with path have "firstFreeBlock s = 0"
        by simp
      then have "my_free cfg (b + HEADER_SIZE) s = Some Fault"
        using a0 False not_header_null [OF wf]
        by (simp add: my_free_def pthread_mutex_lock_free [OF lk] Let_def my_free_loop_fault)
      with run show False
        by simp
    qed
    with path have first: "firstFreeBlock s = hd (?fpre @ ?fpost)"
      by (rule next_path_hd)
    have pre_ne: "?fpre \<noteq> []"
    proof
      assume e: "?fpre = []"
      with ne have "hd (?fpre @ ?fpost) = hd ?fpost" "hd ?fpost \<in> set ?fpost"
        by (simp_all del: set_filter)
      then have "firstFreeBlock s \<in> set post"
        using first by auto
      from post_gt [OF this] False show False
        by simp
    qed
    then obtain us fb where pre: "?fpre = us @ [fb]"
      by (cases ?fpre rule: rev_cases) auto
    let ?q = "blk_next s fb"
    let ?s3 = "s\<lparr>lock := True, blk_next := (blk_next s)(b := ?q, fb := b)\<rparr>"
    note ins = insert_after_ok [OF wf ok bs used pre]
    have "set (us @ [fb]) \<subseteq> set pre"
      unfolding pre [symmetric] by auto
    then have us_pre: "\<And>x. x \<in> set (us @ [fb]) \<Longrightarrow> x \<in> set pre"
      by blast
    have fb_b: "fb \<noteq> b" and fb_lt: "fb < b"
      using pre_lt [OF us_pre, of fb] by auto
    from path pre have path': "next_path (blk_next s) (firstFreeBlock s) (us @ fb # ?fpost) 0"
      by simp
    have q: "?q = (if ?fpost = [] then 0 else hd ?fpost)"
      by (rule next_path_mid [OF path'])
    have stop: "\<not> (?q < b \<and> ?q \<noteq> 0)"
    proof (cases "?fpost = []")
      case True
      with q show ?thesis by simp
    next
      case False
      with q have "?q = hd ?fpost" "hd ?fpost \<in> set ?fpost"
        by (simp_all del: set_filter)
      then have "?q \<in> set post"
        by auto
      from post_gt [OF this] show ?thesis
        by (auto dest: order.strict_trans)
    qed
    from path' obtain m where p1: "next_path (blk_next s) (firstFreeBlock s) (us @ [fb]) m"
      using next_path_append [of "blk_next s" "firstFreeBlock s" "us @ [fb]" ?fpost 0] by auto
    then have p1': "next_path (blk_next ?s1) (firstFreeBlock ?s1) (us @ [fb]) ?q"
      by (simp add: next_path_snoc)
    have loop: "my_free_loop cfg ?s1 b (firstFreeBlock ?s1) = Some (Returns fb ?s1)"
    proof (rule my_free_loop_path [OF p1'])
      show "\<forall>u\<in>set (us @ [fb]). is_header cfg u"
        using us_pre hdr bs by auto
      show "\<forall>u\<in>set (tl (us @ [fb])). u < b"
        using us_pre pre_lt by (auto dest: list.set_sel(2) [rotated])
      show "\<not> (?q < b \<and> ?q \<noteq> 0)"
        by (rule stop)
    qed
    have "my_free cfg (b + HEADER_SIZE) s =
        Some (bind (merge_blocks cfg b (blk_next ?s3 b) ?s3)
          (\<lambda>_ s4. bind (merge_blocks cfg fb b s4)
            (\<lambda>_ s5. Returns () (pthread_mutex_unlock s5))))"
      using a0 False bb(1) loop
      by (simp add: my_free_def pthread_mutex_lock_free [OF lk] Let_def if_zero_same)
    with run obtain s4 s5 where
      m1: "merge_blocks cfg b (blk_next ?s3 b) ?s3 = Returns () s4"
      and m2: "merge_blocks cfg fb b s4 = Returns () s5"
      and s': "s' = pthread_mutex_unlock s5"
      by (auto dest!: bind_Returns)
    have f3: "filter (is_free cfg ?s3) bs = (us @ [fb]) @ b # ?fpost"
      using ins(2) by simp
    have nt_pre: "no_touching (blk_size s) (us @ [fb])" and nt_post: "no_touching (blk_size s) ?fpost"
      using no_touching_prefix [of "blk_size s" ?fpre ?fpost] nt fs pre by simp_all
    have nt3: "no_touching (blk_size ?s3) ?fpost"
      using nt_post by simp
    from merge_step [OF wf ins(1) f3 nt3 m1] obtain bs4 fr4 where
      ok4: "heap_ok cfg s4 bs4" and
      f4: "filter (is_free cfg s4) bs4 = (us @ [fb]) @ b # fr4" and
      nt4: "no_touching (blk_size s4) (b # fr4)" and
      sub4: "set bs4 \<subseteq> set bs" and
      size4: "\<forall>a. a \<noteq> b \<longrightarrow> blk_size s4 a = blk_size ?s3 a" and
      next4: "\<forall>a. a \<noteq> b \<longrightarrow> blk_next s4 a = blk_next ?s3 a" and
      sz4: "unat (blk_size ?s3 b) \<le> unat (blk_size s4 b)"
      by blast
    have nfb: "blk_next s4 fb = b"
      using next4 fb_b by simp
    have f4': "filter (is_free cfg s4) bs4 = us @ fb # (b # fr4)"
      using f4 by simp
    have m2': "merge_blocks cfg fb (blk_next s4 fb) s4 = Returns () s5"
      using m2 nfb by simp
    from merge_step [OF wf ok4 f4' nt4 m2', unfolded nfb] obtain bs5 fr5 where
      ok5: "heap_ok cfg s5 bs5" and
      f5: "filter (is_free cfg s5) bs5 = us @ fb # fr5" and
      nt5: "no_touching (blk_size s5) (fb # fr5)" and
      sub5: "set bs5 \<subseteq> set bs4" and
      size5: "\<forall>a. a \<noteq> fb \<longrightarrow> blk_size s5 a = blk_size s4 a" and
      sum5: "fb + blk_size s4 fb = b \<longrightarrow>
               unat (blk_size s5 fb) = unat (blk_size s4 fb) + unat (blk_size s4 b)" and
      fr5: "if fb + blk_size s4 fb = b then b # fr4 = b # fr5 else fr5 = b # fr4"
      by blast
    have dfs: "distinct (us @ [fb])"
      using heap_ok_free_distinct [OF ok] fs pre by simp
    have b_us: "b \<notin> set us"
      using us_pre pre_lt by fastforce
    have "no_touching (blk_size s5) (us @ [fb]) = no_touching (blk_size s) (us @ [fb])"
    proof (rule no_touching_cong)
      fix a assume "a \<in> set (butlast (us @ [fb]))"
      then have "a \<in> set us"
        by simp
      with dfs b_us have "a \<noteq> fb" "a \<noteq> b"
        by auto
      with size5 size4 show "blk_size s5 a = blk_size s a"
        by simp
    qed
    with nt_pre have "no_touching (blk_size s5) (us @ [fb])"
      by simp
    then have nt5': "no_touching (blk_size s5) (filter (is_free cfg s5) bs5)"
      unfolding f5 using nt5 by (rule no_touching_join)
    have sub: "set bs5 \<subseteq> set bs"
      using sub5 sub4 by blast
    show ?thesis
    proof (cases "fb + blk_size s4 fb = b")
      case False
      with fr5 have "fr5 = b # fr4"
        by simp
      show ?thesis
      proof (rule final [OF ok5 nt5' sub s', of b])
        show "b \<in> set (filter (is_free cfg s5) bs5)"
          using f5 \<open>fr5 = b # fr4\<close> by simp
        show "unat b \<le> unat b"
          by simp
        show "unat b + unat (blk_size s b) \<le> unat b + unat (blk_size s5 b)"
          using sz4 size5 fb_b by simp
      qed
    next
      case True
      have "fb \<in> set (filter (is_free cfg s4) bs4)"
        using f4 by simp
      then have "fb \<in> set bs4"
        by simp
      from heap_ok_nowrap [OF wf ok4 this] True
      have ub: "unat b = unat fb + unat (blk_size s4 fb)"
        using unat_plus64 [of fb "blk_size s4 fb"] by auto
      show ?thesis
      proof (rule final [OF ok5 nt5' sub s', of fb])
        show "fb \<in> set (filter (is_free cfg s5) bs5)"
          using f5 by simp
        show "unat fb \<le> unat b"
          using ub by simp
        show "unat b + unat (blk_size s b) \<le> unat fb + unat (blk_size s5 fb)"
          using sum5 True ub sz4 by simp
      qed
    qed
  qed
qed

text \<open>
  Where locking a held mutex returns an error instead of blocking, \<open>my_free\<close> can return.
  Its insertion and its two merges then keep the invariants: for \<open>p\<close> either \<^verbatim>\<open>NULL\<close> or the
  payload pointer of a block in use, the blocks still partition the arena, the free list
  is exactly the free blocks in strictly increasing address order, no node ends where the
  next one starts, and the bytes of the freed block lie in a free block.
\<close>

lemma my_free_invariants_when_it_returns:
  assumes wf: "wf_config cfg" and inv: "heap_inv cfg s bs"
    and p: "p = 0 \<or> p - HEADER_SIZE \<in> set bs \<and> \<not> is_free cfg s (p - HEADER_SIZE)"
    and run: "my_free cfg p s = Some (Returns u s')"
  shows "\<exists>bs'. heap_inv cfg s' bs' \<and> set bs' \<subseteq> set bs \<and>
           blocks_between (blk_size s') (unat (heapData cfg)) bs'
             (unat (heapData cfg) + unat (HEAP_SIZE cfg)) \<and>
           next_path (blk_next s') (firstFreeBlock s') (filter (is_free cfg s') bs') 0 \<and>
           sorted_wrt (<) (filter (is_free cfg s') bs') \<and>
           no_touching (blk_size s') (filter (is_free cfg s') bs') \<and>
           (p = 0 \<or>
            (\<exists>f\<in>set (filter (is_free cfg s') bs').
               unat f \<le> unat (p - HEADER_SIZE) \<and>
               unat (p - HEADER_SIZE) + unat (blk_size s (p - HEADER_SIZE)) \<le>
                 unat f + unat (blk_size s' f)))"
proof -
  have "\<exists>bs'. heap_inv cfg s' bs' \<and> set bs' \<subseteq> set bs \<and>
           sorted_wrt (<) (filter (is_free cfg s') bs') \<and>
           (p = 0 \<or>
            (\<exists>f\<in>set (filter (is_free cfg s') bs').
               unat f \<le> unat (p - HEADER_SIZE) \<and>
               unat (p - HEADER_SIZE) + unat (blk_size s (p - HEADER_SIZE)) \<le>
                 unat f + unat (blk_size s' f)))"
  proof (cases "p = 0")
    case True
    have lk: "\<not> (lock s \<and> relock_blocks cfg)"
      using run by (auto simp: my_free_def pthread_mutex_lock_def)
    with run True have s': "s' = s\<lparr>lock := True\<rparr>"
      by (simp add: my_free_def pthread_mutex_lock_free)
    have "heap_inv cfg s' bs"
      using inv unfolding s' by (simp add: heap_inv_def)
    moreover have "sorted_wrt (<) (filter (is_free cfg s') bs)"
      using inv by (intro sorted_wrt_filter heap_ok_sorted [of cfg s]) (simp add: heap_inv_def)
    ultimately show ?thesis
      using True by blast
  next
    case False
    let ?b = "p - HEADER_SIZE"
    have b: "?b \<in> set bs" "\<not> is_free cfg s ?b"
      using p False by simp_all
    have "my_free cfg (?b + HEADER_SIZE) s = Some (Returns u s')"
      using run by simp
    from my_free_block_invariants [OF wf inv b this] show ?thesis
      by blast
  qed
  then obtain bs' where bs': "heap_inv cfg s' bs'" "set bs' \<subseteq> set bs"
    "sorted_wrt (<) (filter (is_free cfg s') bs')"
    "p = 0 \<or>
      (\<exists>f\<in>set (filter (is_free cfg s') bs').
         unat f \<le> unat (p - HEADER_SIZE) \<and>
         unat (p - HEADER_SIZE) + unat (blk_size s (p - HEADER_SIZE)) \<le>
           unat f + unat (blk_size s' f))"
    by blast
  from bs'(1) have "blocks_between (blk_size s') (unat (heapData cfg)) bs'
             (unat (heapData cfg) + unat (HEAP_SIZE cfg))"
    "next_path (blk_next s') (firstFreeBlock s') (filter (is_free cfg s') bs') 0"
    "no_touching (blk_size s') (filter (is_free cfg s') bs')"
    by (simp_all add: heap_inv_def heap_ok_def)
  with bs' show ?thesis
    by blast
qed

lemma my_free_invariants_example:
  "wf_config example_config \<and> heap_inv example_config two_free [4096, 4112, 4128] \<and>
   (4128 - HEADER_SIZE \<in> set [4096, 4112, 4128] \<and>
    \<not> is_free example_config two_free (4128 - HEADER_SIZE)) \<and>
   my_free example_config 4128 two_free = Some (Returns () all_merged) \<and>
   (\<exists>bs'. heap_inv example_config all_merged bs' \<and> set bs' \<subseteq> set [4096, 4112, 4128] \<and>
      blocks_between (blk_size all_merged) (unat (heapData example_config)) bs'
        (unat (heapData example_config) + unat (HEAP_SIZE example_config)) \<and>
      next_path (blk_next all_merged) (firstFreeBlock all_merged)
        (filter (is_free example_config all_merged) bs') 0 \<and>
      sorted_wrt (<) (filter (is_free example_config all_merged) bs') \<and>
      no_touching (blk_size all_merged) (filter (is_free example_config all_merged) bs') \<and>
      (\<exists>f\<in>set (filter (is_free example_config all_merged) bs').
         unat f \<le> unat (4128 - HEADER_SIZE) \<and>
         unat (4128 - HEADER_SIZE) + unat (blk_size two_free (4128 - HEADER_SIZE)) \<le>
           unat f + unat (blk_size all_merged f)))"
proof -
  have b1: "4128 - HEADER_SIZE \<in> set [4096, 4112, 4128]"
    by (simp add: HEADER_SIZE_def)
  have b2: "\<not> is_free example_config two_free (4128 - HEADER_SIZE)"
    by (simp add: is_free_def two_free_def example_config_def HEADER_SIZE_def)
  from b1 b2 have "4128 - HEADER_SIZE \<in> set [4096, 4112, 4128] \<and>
      \<not> is_free example_config two_free (4128 - HEADER_SIZE)"
    by (rule conjI)
  then have p: "(4128 :: 64 word) = 0 \<or> 4128 - HEADER_SIZE \<in> set [4096, 4112, 4128] \<and>
      \<not> is_free example_config two_free (4128 - HEADER_SIZE)"
    by (rule disjI2)
  have run: "my_free example_config 4128 two_free = Some (Returns () all_merged)"
    using my_free_two_free by (simp add: HEADER_SIZE_def)
  have nz: "(4128 :: 64 word) \<noteq> 0"
    by simp
  from my_free_invariants_when_it_returns [OF wf_example heap_inv_two_free p run]
  obtain bs' where h: "heap_inv example_config all_merged bs'"
      "set bs' \<subseteq> set [4096, 4112, 4128]"
      "blocks_between (blk_size all_merged) (unat (heapData example_config)) bs'
        (unat (heapData example_config) + unat (HEAP_SIZE example_config))"
      "next_path (blk_next all_merged) (firstFreeBlock all_merged)
        (filter (is_free example_config all_merged) bs') 0"
      "sorted_wrt (<) (filter (is_free example_config all_merged) bs')"
      "no_touching (blk_size all_merged) (filter (is_free example_config all_merged) bs')"
    and d: "(4128 :: 64 word) = 0 \<or>
      (\<exists>f\<in>set (filter (is_free example_config all_merged) bs').
         unat f \<le> unat (4128 - HEADER_SIZE) \<and>
         unat (4128 - HEADER_SIZE) + unat (blk_size two_free (4128 - HEADER_SIZE)) \<le>
           unat f + unat (blk_size all_merged f))"
    by (elim exE conjE)
  from d have x: "\<exists>f\<in>set (filter (is_free example_config all_merged) bs').
         unat f \<le> unat (4128 - HEADER_SIZE) \<and>
         unat (4128 - HEADER_SIZE) + unat (blk_size two_free (4128 - HEADER_SIZE)) \<le>
           unat f + unat (blk_size all_merged f)"
  proof (rule disjE)
    assume "(4128 :: 64 word) = 0"
    with nz show ?thesis
      by (rule notE)
  qed
  from h x have "\<exists>bs'. heap_inv example_config all_merged bs' \<and> set bs' \<subseteq> set [4096, 4112, 4128] \<and>
      blocks_between (blk_size all_merged) (unat (heapData example_config)) bs'
        (unat (heapData example_config) + unat (HEAP_SIZE example_config)) \<and>
      next_path (blk_next all_merged) (firstFreeBlock all_merged)
        (filter (is_free example_config all_merged) bs') 0 \<and>
      sorted_wrt (<) (filter (is_free example_config all_merged) bs') \<and>
      no_touching (blk_size all_merged) (filter (is_free example_config all_merged) bs') \<and>
      (\<exists>f\<in>set (filter (is_free example_config all_merged) bs').
         unat f \<le> unat (4128 - HEADER_SIZE) \<and>
         unat (4128 - HEADER_SIZE) + unat (blk_size two_free (4128 - HEADER_SIZE)) \<le>
           unat f + unat (blk_size all_merged f))"
    by (intro exI [of _ bs'] conjI)
  with b1 b2 run show ?thesis
    by (intro conjI wf_example heap_inv_two_free)
qed

lemma merge_blocks_held:
  "relock_blocks cfg \<Longrightarrow> lock s \<Longrightarrow> merge_blocks cfg block1 block2 s = Deadlock"
  by (simp add: merge_blocks_def pthread_mutex_lock_def)

section \<open>The claims\<close>

text \<open>
  Claim C1 says that every operation takes the lock once and holds it for its whole
  critical section, and that \<open>my_malloc\<close> holds it from the search to the split. The code
  does otherwise. \<open>my_malloc\<close> unlocks after the search and calls \<open>allocate_block\<close>, which
  locks again: \<open>allocate_block\<close> starts with the lock free, and would block if it were
  held. \<open>my_malloc\<close> returning \<^verbatim>\<open>NULL\<close> or an exact fit, and \<open>my_free\<close> of \<^verbatim>\<open>NULL\<close>, return
  with the lock still held. \<open>my_free\<close> of a block calls \<open>merge_blocks\<close>, which locks the mutex that
  \<open>my_free\<close> holds; where that blocks, \<open>my_free\<close> never returns.
\<close>

theorem lock_not_held_throughout:
  "my_malloc blocking_config 0 (initAllocator blocking_config blank) =
     Some (allocate_block blocking_config Head 4096 16
             ((initAllocator blocking_config blank)\<lparr>lock := False\<rparr>)) \<and>
   allocate_block blocking_config Head 4096 16
     ((initAllocator blocking_config blank)\<lparr>lock := True\<rparr>) = Deadlock \<and>
   my_malloc blocking_config 64 (initAllocator blocking_config blank) =
     Some (Returns 0 ((initAllocator blocking_config blank)\<lparr>lock := True\<rparr>)) \<and>
   (\<exists>s1. my_malloc blocking_config 48 (initAllocator blocking_config blank) =
           Some (Returns 4112 s1) \<and> lock s1) \<and>
   my_free blocking_config 0 one_alloc = Some (Returns () (one_alloc\<lparr>lock := True\<rparr>)) \<and>
   my_free blocking_config 4112 one_alloc = Some Deadlock"
  by (simp add: my_malloc_def my_free_def blocking_config_def one_alloc_def example_simps
      loop_simps roundUp_def allocate_block_def merge_blocks_def)

text \<open>
  Claim C2 says that \<open>my_free\<close> inserts the block at the head of the free list when the
  block lies before the head or when the list is empty. With an empty list
  (\<^verbatim>\<open>_firstFreeBlock\<close> is \<^verbatim>\<open>NULL\<close>) the test \<^verbatim>\<open>block < freeblock\<close> fails, and the scan loop
  reads \<^verbatim>\<open>freeblock->next\<close> through \<^verbatim>\<open>NULL\<close>: whatever the arena holds, the call faults.
\<close>

theorem my_free_empty_list_faults:
  "my_free example_config 4112 (s\<lparr>firstFreeBlock := 0\<rparr>) = Some Fault"
  by (simp add: my_free_def example_simps loop_simps)

text \<open>
  Claim C3 says that a request the arena cannot satisfy returns \<^verbatim>\<open>NULL\<close> and changes
  nothing. The size \<^verbatim>\<open>roundUp(size) + HEADER_SIZE\<close> is computed in 64 bits and wraps around:
  on the fresh 64-byte arena a request of \<open>2 ^ 64 - 1\<close> bytes is served with a 16-byte
  block, and a request of \<open>2 ^ 64 - 16\<close> bytes searches for 0 bytes, returns a pointer
  into the first block and leaves that block, now marked in use, at the head of the free
  list.
\<close>

theorem my_malloc_wraps_around:
  "\<exists>s1 s2.
      my_malloc example_config 0xFFFFFFFFFFFFFFFF (initAllocator example_config blank) =
        Some (Returns 4112 s1) \<and> blk_size s1 4096 = 16 \<and>
      my_malloc example_config 0xFFFFFFFFFFFFFFF0 (initAllocator example_config blank) =
        Some (Returns 4112 s2) \<and> firstFreeBlock s2 = 4096 \<and>
        blk_next s2 4096 = ALLOCATED_BLOCK_MAGIC example_config"
  by (simp add: my_malloc_def example_simps loop_simps roundUp_def allocate_block_def
      getNextBlockBySize_def)

text \<open>
  Claim C4, as amended: for every 64-bit \<open>n\<close> of at most \<open>2 ^ 64 - 16\<close>, \<open>roundUp n\<close> is the
  least multiple of 16 that is greater than or equal to \<open>n\<close>. (\<open>roundUp\<close> is a function of
  its argument alone: it neither reads nor changes the state.)
\<close>

theorem roundUp_least_multiple:
  assumes "unat n \<le> 2 ^ 64 - 16"
  shows "16 dvd unat (roundUp n) \<and> unat n \<le> unat (roundUp n) \<and>
         (\<forall>m. 16 dvd m \<and> unat n \<le> m \<longrightarrow> unat (roundUp n) \<le> m)"
proof -
  have eq: "unat (roundUp n) = 16 * ((unat n + 15) div 16)"
    using assms by (rule unat_roundUp)
  have "\<And>m. 16 dvd m \<Longrightarrow> unat n \<le> m \<Longrightarrow> 16 * ((unat n + 15) div 16) \<le> m"
    by (elim dvdE) auto
  then show ?thesis
    unfolding eq by auto
qed

theorem roundUp_least_multiple_witness:
  "unat (17 :: 64 word) \<le> 2 ^ 64 - 16 \<and> (16 :: nat) dvd 32 \<and> unat (17 :: 64 word) \<le> 32 \<and>
   16 dvd unat (roundUp 17) \<and> unat (17 :: 64 word) \<le> unat (roundUp 17) \<and>
   unat (roundUp 17) \<le> 32"
proof -
  have h: "unat (17 :: 64 word) \<le> 2 ^ 64 - 16"
    by simp
  have m: "(16 :: nat) dvd 32 \<and> unat (17 :: 64 word) \<le> 32"
    by simp
  have r: "16 dvd unat (roundUp 17) \<and> unat (17 :: 64 word) \<le> unat (roundUp 17) \<and>
         (\<forall>m. 16 dvd m \<and> unat (17 :: 64 word) \<le> m \<longrightarrow> unat (roundUp 17) \<le> m)"
    by (rule roundUp_least_multiple [OF h])
  from r have "16 dvd (32::nat) \<and> unat (17 :: 64 word) \<le> 32 \<longrightarrow> unat (roundUp 17) \<le> 32"
    by (elim conjE allE)
  with m have "unat (roundUp 17) \<le> 32"
    by (rule_tac mp)
  with r h m show ?thesis
    by (intro conjI) (elim conjE, assumption)+
qed

text \<open>
  Claim C4 as stated fails above \<open>2 ^ 64 - 16\<close>, where no multiple of 16 that is large
  enough fits in 64 bits: the sum wraps around and the result is below the argument.
\<close>

theorem roundUp_wraps_counterexample:
  "unat (roundUp 0xFFFFFFFFFFFFFFFF) < unat (0xFFFFFFFFFFFFFFFF :: 64 word)"
  by (simp add: roundUp_def)

text \<open>
  Claim C5 says that \<open>my_malloc n\<close> followed at once by \<open>my_free\<close> of the result restores
  the free list. On the fresh 64-byte arena \<open>my_malloc 48\<close> takes the whole arena and
  leaves the free list empty; \<open>my_free\<close> of the pointer then faults instead of putting the
  block back.
\<close>

theorem my_malloc_whole_arena_then_free:
  "\<exists>s1. my_malloc example_config 48 (initAllocator example_config blank) = Some (Returns 4112 s1) \<and>
      firstFreeBlock s1 = 0 \<and>
      my_free example_config 4112 s1 = Some Fault"
  by (simp add: my_malloc_def my_free_def example_simps loop_simps roundUp_def allocate_block_def)



text \<open>
  Claim C7: when the first-fit block \<open>b\<close> is larger than \<open>neededSize\<close>, \<open>my_malloc\<close> splits
  it in place. The size of \<open>b\<close> becomes \<open>neededSize\<close>; the block at \<open>b + neededSize\<close> gets
  the size \<open>oldSize - neededSize\<close>, which is not zero, and the old \<^verbatim>\<open>next\<close> of \<open>b\<close>; \<open>b\<close> is
  marked in use; the pointer that led to \<open>b\<close> (\<^verbatim>\<open>_firstFreeBlock\<close>, or \<^verbatim>\<open>next\<close> of the free
  block before it) now leads to the new block, which takes the place of \<open>b\<close> in the free
  list; the result is the payload of \<open>b\<close>.
\<close>

theorem my_malloc_split:
  assumes wf: "wf_config cfg" and ok: "heap_ok cfg s bs"
    and lk: "\<not> (lock s \<and> relock_blocks cfg)"
    and fs: "filter (is_free cfg s) bs = pre @ b # post"
    and small: "\<forall>f\<in>set pre. unat (blk_size s f) < 16 * ((unat n + 15) div 16) + 16"
    and big: "16 * ((unat n + 15) div 16) + 16 < unat (blk_size s b)"
  shows "\<exists>s'. my_malloc cfg n s = Some (Returns (b + HEADER_SIZE) s') \<and>
           unat (blk_size s' b) = 16 * ((unat n + 15) div 16) + 16 \<and>
           unat (b + (roundUp n + HEADER_SIZE)) = unat b + (16 * ((unat n + 15) div 16) + 16) \<and>
           unat (blk_size s' (b + (roundUp n + HEADER_SIZE))) =
             unat (blk_size s b) - (16 * ((unat n + 15) div 16) + 16) \<and>
           0 < unat (blk_size s' (b + (roundUp n + HEADER_SIZE))) \<and>
           blk_next s' (b + (roundUp n + HEADER_SIZE)) = blk_next s b \<and>
           blk_next s' b = ALLOCATED_BLOCK_MAGIC cfg \<and>
           (if pre = [] then firstFreeBlock s' = b + (roundUp n + HEADER_SIZE)
            else blk_next s' (last pre) = b + (roundUp n + HEADER_SIZE) \<and>
                 firstFreeBlock s' = firstFreeBlock s) \<and>
           next_path (blk_next s') (firstFreeBlock s')
             (pre @ (b + (roundUp n + HEADER_SIZE)) # post) 0"
proof -
  let ?sz = "roundUp n + HEADER_SIZE"
  let ?N = "16 * ((unat n + 15) div 16) + 16"
  let ?slot = "if pre = [] then Head else NextOf (last pre)"
  let ?c = "b + ?sz"
  let ?s0 = "s\<lparr>lock := False\<rparr>"
  have fit: "?N \<le> unat (blk_size s b)"
    using big by simp
  note su = first_fit_setup [OF wf ok fs small fit]
  note blk = heap_ok_block [OF wf ok su(4)]
  have nowrap: "unat b + unat (blk_size s b) < 2 ^ 64"
    by (rule heap_ok_nowrap [OF wf ok su(4)])
  have run: "my_malloc cfg n s = Some (allocate_block cfg ?slot b ?sz ?s0)"
    by (rule my_malloc_found [OF wf ok lk fs su(2) su(3)])
  have "\<exists>s'. allocate_block cfg ?slot b ?sz ?s0 = Returns (b + HEADER_SIZE) s' \<and>
           blk_size s' = (blk_size ?s0) (b := ?sz, b + ?sz := blk_size ?s0 b - ?sz) \<and>
           blk_next s' = blk_next (store_slot ?slot (b + ?sz)
              (?s0\<lparr>blk_next := (blk_next ?s0)
                   (b + ?sz := blk_next ?s0 b, b := ALLOCATED_BLOCK_MAGIC cfg)\<rparr>)) \<and>
           firstFreeBlock s' = firstFreeBlock (store_slot ?slot (b + ?sz) ?s0) \<and>
           lock s' = False"
    using blk su(1) su(6) big by (intro allocate_block_split [OF wf]) simp_all
  then obtain s' where ab: "allocate_block cfg ?slot b ?sz ?s0 = Returns (b + HEADER_SIZE) s'"
    and size': "blk_size s' = (blk_size s) (b := ?sz, ?c := blk_size s b - ?sz)"
    and next': "blk_next s' = blk_next (store_slot ?slot ?c
              (?s0\<lparr>blk_next := (blk_next s) (?c := blk_next s b, b := ALLOCATED_BLOCK_MAGIC cfg)\<rparr>))"
    and first': "firstFreeBlock s' = firstFreeBlock (store_slot ?slot ?c ?s0)"
    by auto
  have sum: "unat ?c = unat b + ?N"
    using su(1) big nowrap by (subst unat_plus64) simp_all
  then have cb: "?c \<noteq> b" and c0: "?c \<noteq> 0"
    by auto
  have c_notin: "?c \<notin> set bs"
    using su(1) big by (intro inside_not_block [OF ok su(4) _ _ nowrap]) simp_all
  then have c_fs: "?c \<notin> set (pre @ b # post)"
    using fs by (metis filter_is_subset subsetD)
  have dist: "distinct (pre @ b # post)"
    using heap_ok_free_distinct [OF ok] fs by simp
  have path: "next_path (blk_next s) (firstFreeBlock s) (pre @ b # post) 0"
    using ok fs by (simp add: heap_ok_def)
  have 1: "unat (blk_size s' b) = ?N"
    using size' cb su(1) by simp
  have "unat (blk_size s b - ?sz) = unat (blk_size s b) - unat ?sz"
    using su(1) big by (intro unat_minus64) simp
  then have 2: "unat (blk_size s' ?c) = unat (blk_size s b) - ?N"
    using size' su(1) by simp
  have 3: "0 < unat (blk_size s' ?c)"
    using 2 big by simp
  show ?thesis
  proof (cases "pre = []")
    case True
    then have nx: "blk_next s' = (blk_next s)(?c := blk_next s b, b := ALLOCATED_BLOCK_MAGIC cfg)"
      and fr: "firstFreeBlock s' = ?c"
      using next' first' by simp_all
    have "next_path (blk_next s') (firstFreeBlock s') (pre @ ?c # post) 0"
      using next_path_replace(1) [OF path dist c_fs c0 True] True nx fr by simp
    with run ab 1 2 3 sum nx fr cb True show ?thesis
      by simp
  next
    case False
    then have nx: "blk_next s' =
        ((blk_next s)(?c := blk_next s b, b := ALLOCATED_BLOCK_MAGIC cfg))(last pre := ?c)"
      and fr: "firstFreeBlock s' = firstFreeBlock s"
      using next' first' by simp_all
    have lp: "last pre \<noteq> b" "last pre \<noteq> ?c"
      using su(7) [OF False] c_notin by auto
    have "next_path (blk_next s') (firstFreeBlock s') (pre @ ?c # post) 0"
      using next_path_replace(2) [OF path dist c_fs c0 False] nx fr by simp
    with run ab 1 2 3 sum nx fr cb lp False show ?thesis
      by simp
  qed
qed

theorem my_malloc_split_witness:
  "wf_config example_config \<and>
   heap_ok example_config (initAllocator example_config blank) [4096] \<and>
   \<not> (lock (initAllocator example_config blank) \<and> relock_blocks example_config) \<and>
   filter (is_free example_config (initAllocator example_config blank)) [4096] = [] @ 4096 # [] \<and>
   16 * ((unat (0 :: 64 word) + 15) div 16) + 16 <
     unat (blk_size (initAllocator example_config blank) 4096) \<and>
   (\<exists>s'. my_malloc example_config 0 (initAllocator example_config blank) =
            Some (Returns (4096 + HEADER_SIZE) s') \<and>
      unat (blk_size s' 4096) = 16 * ((unat (0 :: 64 word) + 15) div 16) + 16 \<and>
      unat (4096 + (roundUp 0 + HEADER_SIZE)) =
        unat (4096 :: 64 word) + (16 * ((unat (0 :: 64 word) + 15) div 16) + 16) \<and>
      unat (blk_size s' (4096 + (roundUp 0 + HEADER_SIZE))) =
        unat (blk_size (initAllocator example_config blank) 4096) -
          (16 * ((unat (0 :: 64 word) + 15) div 16) + 16) \<and>
      0 < unat (blk_size s' (4096 + (roundUp 0 + HEADER_SIZE))) \<and>
      blk_next s' (4096 + (roundUp 0 + HEADER_SIZE)) =
        blk_next (initAllocator example_config blank) 4096 \<and>
      blk_next s' 4096 = ALLOCATED_BLOCK_MAGIC example_config \<and>
      (if ([] :: addr list) = [] then firstFreeBlock s' = 4096 + (roundUp 0 + HEADER_SIZE)
       else blk_next s' (last []) = 4096 + (roundUp 0 + HEADER_SIZE) \<and>
            firstFreeBlock s' = firstFreeBlock (initAllocator example_config blank)) \<and>
      next_path (blk_next s') (firstFreeBlock s')
        ([] @ (4096 + (roundUp 0 + HEADER_SIZE)) # []) 0)"
proof -
  have 4: "filter (is_free example_config (initAllocator example_config blank)) [4096] =
      [] @ 4096 # []"
    by (simp add: example_config_def initAllocator_def blank_def is_free_def)
  have 5: "\<forall>f\<in>set ([] :: addr list).
      unat (blk_size (initAllocator example_config blank) f) <
        16 * ((unat (0 :: 64 word) + 15) div 16) + 16"
    by simp
  have 6: "16 * ((unat (0 :: 64 word) + 15) div 16) + 16 <
     unat (blk_size (initAllocator example_config blank) 4096)"
    by (simp add: example_config_def initAllocator_def)
  show ?thesis
    by (intro conjI wf_example heap_ok_fresh lock_fresh 4 6
        my_malloc_split [OF wf_example heap_ok_fresh lock_fresh 4 5 6])
qed

text \<open>
  Claim C8 says that when \<open>my_free\<close> returns, the free list is exactly the free blocks in
  strictly increasing address order and the free neighbours of the freed block have been
  merged with it. The merging is the work of \<open>merge_blocks\<close>, which \<open>my_free\<close> calls while it
  holds the mutex, and \<open>merge_blocks\<close> starts by locking that mutex. Where locking a held
  mutex blocks, \<open>my_free\<close> of a pointer other than \<^verbatim>\<open>NULL\<close> never returns, whatever the state:
  the block is linked into the free list and never merged.
\<close>

theorem my_free_hangs_in_merge_blocks:
  assumes "relock_blocks cfg" and "address \<noteq> 0"
  shows "my_free cfg address s \<noteq> Some (Returns u s')"
proof (cases "lock s")
  case True
  with assms show ?thesis
    by (simp add: my_free_def pthread_mutex_lock_def)
next
  case False
  then have l: "pthread_mutex_lock cfg s = Returns () (s\<lparr>lock := True\<rparr>)"
    by (simp add: pthread_mutex_lock_def)
  show ?thesis
    using assms
    by (auto simp: my_free_def l Let_def merge_blocks_held
        split: option.splits outcome.splits)
qed

theorem my_free_hangs_in_merge_blocks_witness:
  "relock_blocks blocking_config \<and> (4112 :: 64 word) \<noteq> 0 \<and>
   my_malloc blocking_config 0 (initAllocator blocking_config blank) =
     Some (Returns 4112 one_alloc) \<and>
   my_free blocking_config 4112 one_alloc \<noteq> Some (Returns () all_merged) \<and>
   my_free blocking_config 4112 one_alloc = Some Deadlock \<and>
   my_free blocking_config 4128 two_free = Some Deadlock"
proof -
  have r: "relock_blocks blocking_config"
    by (simp add: blocking_config_def)
  have nz: "(4112 :: 64 word) \<noteq> 0"
    by simp
  have m: "my_malloc blocking_config 0 (initAllocator blocking_config blank) =
      Some (Returns 4112 one_alloc)"
    by (simp add: my_malloc_def blocking_config_def example_simps loop_simps roundUp_def
        allocate_block_def getNextBlockBySize_def one_alloc_def fun_eq_iff)
  have d1: "my_free blocking_config 4112 one_alloc = Some Deadlock"
    by (simp add: my_free_def blocking_config_def one_alloc_def example_simps loop_simps
        merge_blocks_def)
  have d2: "my_free blocking_config 4128 two_free = Some Deadlock"
    by (simp add: my_free_def blocking_config_def two_free_def example_simps loop_simps
        merge_blocks_def)
  from my_free_hangs_in_merge_blocks [OF r nz] r nz m d1 d2 show ?thesis
    by (intro conjI)
qed

text \<open>
  Claim C9: in every state reached from \<open>initAllocator\<close> by calls of \<open>my_malloc\<close> (with any
  size) and of \<open>my_free\<close> (with \<^verbatim>\<open>NULL\<close> or a pointer handed out and not yet freed), walking
  the blocks from the start of the arena by their sizes, as part (a) of \<open>dumpAllocator\<close>
  does, ends and visits blocks that cover the arena: the first starts at offset 0, each
  ends where the next starts, the last ends at \<open>HEAP_SIZE\<close>, and the sizes add up to
  \<open>HEAP_SIZE\<close>.
\<close>

theorem reachable_blocks_partition:
  assumes wf: "wf_config cfg" and re: "reachable cfg s live"
  shows "\<exists>ls. dump_all_loop cfg s (heapData cfg) [] = Some (Returns ls s) \<and>
           covers 0 ls (unat (HEAP_SIZE cfg)) \<and>
           sum_list (map (\<lambda>(off, size, used). unat size) ls) = unat (HEAP_SIZE cfg)"
proof -
  let ?E = "unat (heapData cfg) + unat (HEAP_SIZE cfg)"
  let ?line = "\<lambda>b. (b - heapData cfg, blk_size s b, blk_next s b = ALLOCATED_BLOCK_MAGIC cfg)"
  from reachable_known [OF wf re] obtain K where inv: "known_inv cfg s K"
    by blast
  then have "heapData cfg \<in> K"
    by (simp add: known_inv_def)
  from known_chain [OF wf inv this] obtain bs where ne: "bs \<noteq> []"
    and bb: "blocks_between (blk_size s) (unat (heapData cfg)) bs ?E"
    by blast
  have al: "unat (heapData cfg) mod 16 = 0"
    using wf by (simp add: wf_config_def)
  have "dump_all_loop cfg s (heapData cfg) [] = Some (Returns ([] @ map ?line bs) s)"
    by (rule dump_all_loop_blocks [OF wf bb ne _ al]) simp
  moreover have "covers 0 (map ?line bs) (unat (HEAP_SIZE cfg))"
    using covers_blocks [OF bb, of "heapData cfg"] by simp
  moreover have "sum_list (map (\<lambda>(off, size, used). unat size) (map ?line bs)) =
      unat (HEAP_SIZE cfg)"
    using sizes_blocks [OF bb] by simp
  ultimately show ?thesis
    by auto
qed

theorem reachable_blocks_partition_witness:
  "wf_config example_config \<and> reachable example_config one_alloc {4112} \<and>
   (\<exists>ls. dump_all_loop example_config one_alloc (heapData example_config) [] =
            Some (Returns ls one_alloc) \<and>
      covers 0 ls (unat (HEAP_SIZE example_config)) \<and>
      sum_list (map (\<lambda>(off, size, used). unat size) ls) = unat (HEAP_SIZE example_config))"
  by (intro conjI wf_example reachable_one_alloc
      reachable_blocks_partition [OF wf_example reachable_one_alloc])



end
